theory Spec2Isabelle
  imports Main "HOL-Library.AList"
begin

section \<open>JavaScript values\<close>

text \<open>
  The transformer, validator and mapper work on untyped JSON-like values (\<open>any\<close>).
  Numbers are modelled as integers plus \<open>NaN\<close> (fractions, infinities and the rounding of
  integers beyond \<open>2^53\<close> are outside the model); an object is an association list in insertion
  order (keys that read as array indices, which JavaScript enumerates first, are outside the
  model).
\<close>

datatype jsval =
    JUndefined
  | JNull
  | JBool bool
  | JNum int
  | JNaN
  | JStr string
  | JArr "jsval list"
  | JObj "(string \<times> jsval) list"

datatype StrapiFormat = V4 | V5

datatype DetectedFormat = DV4 | DV5 | DMixed | DUnknown

text \<open>JavaScript truthiness (\<open>if (x)\<close>, \<open>!x\<close>, \<open>x || y\<close>, \<open>x && y\<close>).\<close>

fun truthy :: "jsval \<Rightarrow> bool" where
  "truthy JUndefined = False"
| "truthy JNull = False"
| "truthy (JBool b) = b"
| "truthy (JNum n) = (n \<noteq> 0)"
| "truthy JNaN = False"
| "truthy (JStr s) = (s \<noteq> [])"
| "truthy (JArr xs) = True"
| "truthy (JObj kvs) = True"

text \<open>\<open>typeof x === 'object'\<close>: true of \<open>null\<close>, arrays and objects.\<close>

fun typeof_object :: "jsval \<Rightarrow> bool" where
  "typeof_object JNull = True"
| "typeof_object (JArr xs) = True"
| "typeof_object (JObj kvs) = True"
| "typeof_object _ = False"

fun isArray :: "jsval \<Rightarrow> bool" where
  "isArray (JArr xs) = True"
| "isArray _ = False"

text \<open>
  Property read \<open>x.k\<close> on a value that is neither \<open>null\<close> nor \<open>undefined\<close> (the code
  guards every read). The names the code reads (\<open>id\<close>, \<open>attributes\<close>, \<open>documentId\<close>,
  \<open>data\<close>, \<open>meta\<close>, \<open>pagination\<close>, the media and pagination fields) are own properties of
  plain objects only, so a read on an array or a primitive gives \<open>undefined\<close>.
\<close>

fun js_get :: "jsval \<Rightarrow> string \<Rightarrow> jsval" where
  "js_get (JObj kvs) k = (case map_of kvs k of Some v \<Rightarrow> v | None \<Rightarrow> JUndefined)"
| "js_get _ k = JUndefined"

section \<open>Format detection (\<open>DataValidator.detectFormat\<close>)\<close>

text \<open>\<open>const items = Array.isArray(data) ? data : [data]\<close>\<close>

fun as_items :: "jsval \<Rightarrow> jsval list" where
  "as_items (JArr xs) = xs"
| "as_items d = [d]"

text \<open>The loop body of \<open>detectFormat\<close> on the counters \<open>(v4Count, v5Count, totalCount)\<close>.\<close>

definition detect_step :: "nat \<times> nat \<times> nat \<Rightarrow> jsval \<Rightarrow> nat \<times> nat \<times> nat" where
  "detect_step c item =
     (case c of (v4Count, v5Count, totalCount) \<Rightarrow>
        if truthy item \<and> typeof_object item then
          (if js_get item ''id'' \<noteq> JUndefined \<and> js_get item ''attributes'' \<noteq> JUndefined
             then (v4Count + 1, v5Count, totalCount + 1)
           else if js_get item ''documentId'' \<noteq> JUndefined
             then (v4Count, v5Count + 1, totalCount + 1)
           else (v4Count, v5Count, totalCount + 1))
        else (v4Count, v5Count, totalCount))"

definition detectFormat :: "jsval \<Rightarrow> DetectedFormat" where
  "detectFormat data =
     (if \<not> truthy data then DUnknown
      else case foldl detect_step (0, 0, 0) (as_items data) of
        (v4Count, v5Count, totalCount) \<Rightarrow>
          if totalCount = 0 then DUnknown
          else if v4Count > 0 \<and> v5Count = 0 then DV4
          else if v5Count > 0 \<and> v4Count = 0 then DV5
          else if v4Count > 0 \<and> v5Count > 0 then DMixed
          else DUnknown)"

text \<open>The classification rule as the specification words it.\<close>

definition legacy_like :: "jsval \<Rightarrow> bool" where
  "legacy_like item \<longleftrightarrow>
     js_get item ''id'' \<noteq> JUndefined \<and> js_get item ''attributes'' \<noteq> JUndefined"

definition modern_like :: "jsval \<Rightarrow> bool" where
  "modern_like item \<longleftrightarrow> js_get item ''documentId'' \<noteq> JUndefined"

text \<open>The items the loop classifies: the non-null objects and arrays among the items.\<close>

definition classified :: "jsval \<Rightarrow> jsval list" where
  "classified data = filter (\<lambda>item. truthy item \<and> typeof_object item) (as_items data)"

text \<open>The aggregate rule of the specification, over its own two predicates.\<close>

definition spec_detect :: "jsval \<Rightarrow> DetectedFormat" where
  "spec_detect data =
     (if \<not> truthy data then DUnknown
      else let anyL = list_ex legacy_like (classified data);
               anyM = list_ex modern_like (classified data)
           in if anyL \<and> \<not> anyM then DV4
              else if anyM \<and> \<not> anyL then DV5
              else if anyL \<and> anyM then DMixed
              else DUnknown)"

definition modern_only :: "jsval \<Rightarrow> bool" where
  "modern_only item \<longleftrightarrow> modern_like item \<and> \<not> legacy_like item"

section \<open>String conversion and \<open>parseInt\<close>\<close>

definition digit_char :: "nat \<Rightarrow> char" where
  "digit_char d = ''0123456789'' ! d"

fun show_nat :: "nat \<Rightarrow> string" where
  "show_nat n = (if n < 10 then [digit_char n] else show_nat (n div 10) @ [digit_char (n mod 10)])"

declare show_nat.simps [simp del]

definition show_int :: "int \<Rightarrow> string" where
  "show_int i = (if i < 0 then CHR ''-'' # show_nat (nat (- i)) else show_nat (nat i))"

fun join_comma :: "string list \<Rightarrow> string" where
  "join_comma [] = []"
| "join_comma [s] = s"
| "join_comma (s # t # ss) = s @ '','' @ join_comma (t # ss)"

text \<open>
  JavaScript's \<open>ToString\<close>, as a template literal \<open>`${x}`\<close> and \<open>parseInt(x)\<close> apply it.
  An array joins its elements with commas (\<open>null\<close> and \<open>undefined\<close> elements as the empty
  string); a plain object is \<open>[object Object]\<close>.
\<close>

fun js_to_string :: "jsval \<Rightarrow> string" where
  "js_to_string JUndefined = ''undefined''"
| "js_to_string JNull = ''null''"
| "js_to_string (JBool b) = (if b then ''true'' else ''false'')"
| "js_to_string (JNum n) = show_int n"
| "js_to_string JNaN = ''NaN''"
| "js_to_string (JStr s) = s"
| "js_to_string (JArr xs) =
     join_comma (map (\<lambda>x. if x = JUndefined \<or> x = JNull then [] else js_to_string x) xs)"
| "js_to_string (JObj kvs) = ''[object Object]''"

definition is_digit :: "char \<Rightarrow> bool" where
  "is_digit c \<longleftrightarrow> (48::nat) \<le> of_char c \<and> of_char c \<le> (57::nat)"

text \<open>The white space \<open>parseInt\<close> skips, among the ASCII characters.\<close>

definition is_space :: "char \<Rightarrow> bool" where
  "is_space c \<longleftrightarrow> of_char c \<in> {9, 10, 11, 12, 13, 32::nat}"

definition digits_value :: "string \<Rightarrow> nat" where
  "digits_value ds = foldl (\<lambda>acc c. 10 * acc + (of_char c - (48::nat))) 0 ds"

text \<open>
  \<open>parseInt(x, 10)\<close>: convert to a string, skip leading white space, read an optional
  sign, then the longest run of decimal digits; \<open>NaN\<close> when there is no digit.
\<close>

definition parseInt_string :: "string \<Rightarrow> jsval" where
  "parseInt_string s =
     (let t = dropWhile is_space s;
          neg = (t \<noteq> [] \<and> hd t = CHR ''-'');
          u = (if t \<noteq> [] \<and> (hd t = CHR ''-'' \<or> hd t = CHR ''+'') then tl t else t);
          ds = takeWhile is_digit u
      in if ds = [] then JNaN
         else JNum (if neg then - int (digits_value ds) else int (digits_value ds)))"

definition parseInt :: "jsval \<Rightarrow> jsval" where
  "parseInt x = parseInt_string (js_to_string x)"

text \<open>\<open>a || b\<close>\<close>

definition js_or :: "jsval \<Rightarrow> jsval \<Rightarrow> jsval" where
  "js_or a b = (if truthy a then a else b)"

text \<open>
  \<open>Math.max(c, x)\<close> and \<open>Math.min(c, x)\<close> for an integer constant \<open>c\<close> and a number \<open>x\<close>:
  \<open>NaN\<close> when \<open>x\<close> is \<open>NaN\<close>. The argument is always a result of \<open>parseInt\<close> or of
  \<open>Math.max\<close>, hence a number.
\<close>

fun math_max :: "int \<Rightarrow> jsval \<Rightarrow> jsval" where
  "math_max c (JNum n) = JNum (max c n)"
| "math_max c _ = JNaN"

fun math_min :: "int \<Rightarrow> jsval \<Rightarrow> jsval" where
  "math_min c (JNum n) = JNum (min c n)"
| "math_min c _ = JNaN"

section \<open>Pagination (\<open>PaginationMapper.normalizePagination\<close>)\<close>

definition normalizePagination :: "jsval \<Rightarrow> jsval" where
  "normalizePagination pagination =
     (if \<not> truthy pagination then JUndefined
      else JObj
        [(''page'', math_max 1 (parseInt (js_or (js_get pagination ''page'') (JStr ''1'')))),
         (''pageSize'',
            math_min 100 (math_max 1 (parseInt (js_or (js_get pagination ''pageSize'') (JStr ''25''))))),
         (''pageCount'', math_max 1 (parseInt (js_or (js_get pagination ''pageCount'') (JStr ''1'')))),
         (''total'', math_max 0 (parseInt (js_or (js_get pagination ''total'') (JStr ''0''))))])"

section \<open>A size measure on values\<close>

text \<open>
  The number of array and object nodes of a value. The recursive functions below descend into
  property values and array elements; this measure shows that they terminate on every value.
\<close>

fun jsize :: "jsval \<Rightarrow> nat" where
  "jsize (JArr xs) = 1 + sum_list (map jsize xs)"
| "jsize (JObj kvs) = 1 + sum_list (map (\<lambda>kv. jsize (snd kv)) kvs)"
| "jsize _ = 0"

text \<open>
  \<open>Object.entries(x)\<close> for a non-null object or array: the own properties in order; an array
  gives its elements under their indices.
\<close>

fun js_entries :: "jsval \<Rightarrow> (string \<times> jsval) list" where
  "js_entries (JObj kvs) = kvs"
| "js_entries (JArr xs) = zip (map show_nat [0..<length xs]) xs"
| "js_entries _ = []"

text \<open>The elements of an array (used only under \<open>Array.isArray\<close>).\<close>

fun arr_items :: "jsval \<Rightarrow> jsval list" where
  "arr_items (JArr xs) = xs"
| "arr_items _ = []"

section \<open>Structural validation (\<open>DataValidator\<close>)\<close>

text \<open>\<open>ValidationOptions\<close> as the caller passes them (every field optional).\<close>

record ValidationOptions =
  opt_strict :: "bool option"
  opt_allowMixed :: "bool option"
  opt_checkRelations :: "bool option"
  opt_maxDepth :: "int option"

text \<open>\<open>Required<ValidationOptions>\<close>, after the defaults are filled in.\<close>

record ValidationOpts =
  strict :: bool
  allowMixed :: bool
  checkRelations :: bool
  maxDepth :: int

definition validation_defaults :: "ValidationOptions \<Rightarrow> ValidationOpts" where
  "validation_defaults options =
     \<lparr> strict = (case opt_strict options of Some b \<Rightarrow> b | None \<Rightarrow> False),
       allowMixed = (case opt_allowMixed options of Some b \<Rightarrow> b | None \<Rightarrow> False),
       checkRelations = (case opt_checkRelations options of Some b \<Rightarrow> b | None \<Rightarrow> True),
       maxDepth = (case opt_maxDepth options of Some n \<Rightarrow> n | None \<Rightarrow> 5) \<rparr>"

definition isRelationField :: "jsval \<Rightarrow> StrapiFormat \<Rightarrow> bool" where
  "isRelationField v format =
     (if \<not> truthy v \<or> \<not> typeof_object v then False
      else case format of
        V4 \<Rightarrow> js_get v ''data'' \<noteq> JUndefined
      | V5 \<Rightarrow> isArray v \<or> js_get v ''documentId'' \<noteq> JUndefined)"

lemma jsize_elem [termination_simp]: "x \<in> set xs \<Longrightarrow> jsize x < jsize (JArr xs)"
  by (induction xs) auto

lemma jsize_snd: "kv \<in> set kvs \<Longrightarrow> jsize (snd kv) < jsize (JObj kvs)"
  by (induction kvs) auto

lemma jsize_get: "js_get v k \<noteq> JUndefined \<Longrightarrow> jsize (js_get v k) < jsize v"
  by (cases v) (auto split: option.splits dest!: map_of_SomeD jsize_snd)

lemma jsize_entries: "kv \<in> set (js_entries v) \<Longrightarrow> jsize (snd kv) < jsize v"
proof (cases v)
  case (JArr xs)
  assume "kv \<in> set (js_entries v)"
  with JArr have "snd kv \<in> set xs"
    by (cases kv) (auto dest: set_zip_rightD)
  with JArr show ?thesis using jsize_elem by blast
next
  case (JObj kvs)
  assume "kv \<in> set (js_entries v)"
  with JObj show ?thesis using jsize_snd by simp
qed simp_all

lemma jsize_get_truthy: "truthy (js_get v k) \<Longrightarrow> jsize (js_get v k) < jsize v"
  by (rule jsize_get) (cases "js_get v k"; simp)

lemma jsize_arr_items: "x \<in> set (arr_items v) \<Longrightarrow> jsize x < jsize v"
  by (cases v) (auto dest: jsize_elem)

lemma jsize_get_arr_items:
  "x \<in> set (arr_items (js_get v k)) \<Longrightarrow> jsize x < jsize v"
proof -
  assume a: "x \<in> set (arr_items (js_get v k))"
  then have "js_get v k \<noteq> JUndefined" by auto
  with a show ?thesis using jsize_get [of v k] jsize_arr_items [of x "js_get v k"] by simp
qed

function validateItem :: "jsval \<Rightarrow> StrapiFormat \<Rightarrow> ValidationOpts \<Rightarrow> bool"
  and validateV4Item :: "jsval \<Rightarrow> ValidationOpts \<Rightarrow> bool"
  and validateV5Item :: "jsval \<Rightarrow> ValidationOpts \<Rightarrow> bool"
  and validateRelations :: "jsval \<Rightarrow> StrapiFormat \<Rightarrow> ValidationOpts \<Rightarrow> bool"
  and validateRelation :: "jsval \<Rightarrow> StrapiFormat \<Rightarrow> ValidationOpts \<Rightarrow> bool"
where
  "validateItem item expectedFormat options =
     (if \<not> truthy item \<or> \<not> typeof_object item then True
      else if expectedFormat = V4 then validateV4Item item options
      else validateV5Item item options)"
| "validateV4Item item options =
     (if truthy (js_get item ''id'') \<and> truthy (js_get item ''attributes'')
         \<and> typeof_object (js_get item ''attributes'')
      then (if checkRelations options
            then validateRelations (js_get item ''attributes'') V4 options
            else True)
      else if truthy (js_get item ''id'') \<and> \<not> truthy (js_get item ''attributes'')
              \<and> \<not> strict options then True
      else if allowMixed options \<and> truthy (js_get item ''documentId'') then True
      else False)"
| "validateV5Item item options =
     (if truthy (js_get item ''documentId'')
      then (if checkRelations options then validateRelations item V5 options else True)
      else if allowMixed options \<and> truthy (js_get item ''id'')
              \<and> truthy (js_get item ''attributes'') then True
      else if \<not> strict options \<and> typeof_object item \<and> \<not> truthy (js_get item ''id'')
              \<and> \<not> truthy (js_get item ''attributes'') then True
      else False)"
| "validateRelations item format options =
     (if \<not> truthy item \<or> \<not> typeof_object item then True
      else list_all
        (\<lambda>kv. if truthy (snd kv) \<and> typeof_object (snd kv)
              then (if isRelationField (snd kv) format
                    then validateRelation (snd kv) format options
                    else True)
              else True)
        (js_entries item))"
| "validateRelation relation format options =
     (if \<not> truthy relation then True
      else if format = V4 \<and> js_get relation ''data'' \<noteq> JUndefined then
        (if isArray (js_get relation ''data'')
         then list_all (\<lambda>x. validateItem x V4 options) (arr_items (js_get relation ''data''))
         else validateItem (js_get relation ''data'') V4 options)
      else if format = V5 \<and> isArray relation then
        list_all (\<lambda>x. validateItem x V5 options) (arr_items relation)
      else if format = V5 \<and> truthy (js_get relation ''documentId'') then
        validateItem relation V5 options
      else True)"
  by pat_completeness auto

termination validateItem
  by (relation "measures
    [\<lambda>c. case c of
        Inl (Inl (item, f :: StrapiFormat, opt :: ValidationOpts)) \<Rightarrow> jsize item
      | Inl (Inr (item, opt :: ValidationOpts)) \<Rightarrow> jsize item
      | Inr (Inl (item, opt :: ValidationOpts)) \<Rightarrow> jsize item
      | Inr (Inr (Inl (item, f :: StrapiFormat, opt :: ValidationOpts))) \<Rightarrow> jsize item
      | Inr (Inr (Inr (item, f :: StrapiFormat, opt :: ValidationOpts))) \<Rightarrow> jsize item,
     \<lambda>c. case c of
        Inl (Inl (item, f :: StrapiFormat, opt :: ValidationOpts)) \<Rightarrow> 3
      | Inl (Inr (item, opt :: ValidationOpts)) \<Rightarrow> 2
      | Inr (Inl (item, opt :: ValidationOpts)) \<Rightarrow> 2
      | Inr (Inr (Inl (item, f :: StrapiFormat, opt :: ValidationOpts))) \<Rightarrow> 1
      | Inr (Inr (Inr (item, f :: StrapiFormat, opt :: ValidationOpts))) \<Rightarrow> 4]")
     (auto simp: jsize_entries jsize_arr_items jsize_get_arr_items jsize_get_truthy dest: jsize_get)

definition validateFormat :: "jsval \<Rightarrow> StrapiFormat \<Rightarrow> ValidationOptions \<Rightarrow> bool" where
  "validateFormat data expectedFormat options =
     (if \<not> truthy data then True
      else let opts = validation_defaults options
           in if isArray data
              then list_all (\<lambda>item. validateItem item expectedFormat opts) (arr_items data)
              else validateItem data expectedFormat opts)"

subsection \<open>The detailed path (\<open>getValidationReport\<close>)\<close>

record ValidationReport =
  isValid :: bool
  format :: StrapiFormat
  itemCount :: nat
  validItems :: nat
  invalidItems :: nat
  errors :: "string list"
  warnings :: "string list"

text \<open>The \<open>{ isValid, errors, warnings }\<close> result of the per-item functions.\<close>

record ItemResult =
  r_isValid :: bool
  r_errors :: "string list"
  r_warnings :: "string list"

definition empty_result :: ItemResult where
  "empty_result = \<lparr> r_isValid = True, r_errors = [], r_warnings = [] \<rparr>"

text \<open>\<open>result.errors.push(msg); result.isValid = false\<close>\<close>

definition fail_with :: "string \<Rightarrow> ItemResult \<Rightarrow> ItemResult" where
  "fail_with msg r = r \<lparr> r_errors := r_errors r @ [msg], r_isValid := False \<rparr>"

text \<open>Merging a nested result: push its errors and warnings, and take over its failure.\<close>

definition merge_result :: "ItemResult \<Rightarrow> ItemResult \<Rightarrow> ItemResult" where
  "merge_result sub r =
     r \<lparr> r_errors := r_errors r @ r_errors sub,
         r_warnings := r_warnings r @ r_warnings sub,
         r_isValid := (if \<not> r_isValid sub then False else r_isValid r) \<rparr>"

fun js_typeof :: "jsval \<Rightarrow> string" where
  "js_typeof JUndefined = ''undefined''"
| "js_typeof JNull = ''object''"
| "js_typeof (JBool b) = ''boolean''"
| "js_typeof (JNum n) = ''number''"
| "js_typeof JNaN = ''number''"
| "js_typeof (JStr s) = ''string''"
| "js_typeof (JArr xs) = ''object''"
| "js_typeof (JObj kvs) = ''object''"

definition quoted :: "string \<Rightarrow> string" where
  "quoted s = [CHR 0x27] @ s @ [CHR 0x27]"

definition validateRelationWithDetails ::
  "jsval \<Rightarrow> StrapiFormat \<Rightarrow> ValidationOpts \<Rightarrow> nat \<Rightarrow> string \<Rightarrow> ItemResult" where
  "validateRelationWithDetails relation fmt options itemIndex fieldName =
     (if \<not> truthy relation then empty_result
      else
        let r1 =
          (if fmt = V4 then
             (if js_get relation ''data'' = JUndefined
              then fail_with (''Item '' @ show_nat itemIndex @ '', field '' @ quoted fieldName
                     @ '': v4 relation missing '' @ quoted ''data'' @ '' property'') empty_result
              else foldl
                (\<lambda>r (relIndex, relItem).
                   if \<not> validateItem relItem V4 options
                   then fail_with (''Item '' @ show_nat itemIndex @ '', field '' @ quoted fieldName
                          @ '', relation '' @ show_nat relIndex @ '': Invalid v4 format'') r
                   else r)
                empty_result (enumerate 0 (as_items (js_get relation ''data''))))
           else empty_result)
        in
          (if fmt = V5 then
             (if isArray relation then
                foldl
                  (\<lambda>r (relIndex, relItem).
                     if \<not> validateItem relItem V5 options
                     then fail_with (''Item '' @ show_nat itemIndex @ '', field '' @ quoted fieldName
                            @ '', relation '' @ show_nat relIndex @ '': Invalid v5 format'') r
                     else r)
                  r1 (enumerate 0 (arr_items relation))
              else if truthy (js_get relation ''documentId'') then
                (if \<not> validateItem relation V5 options
                 then fail_with (''Item '' @ show_nat itemIndex @ '', field '' @ quoted fieldName
                        @ '': Invalid v5 relation format'') r1
                 else r1)
              else r1)
           else r1))"

definition validateRelationsWithDetails ::
  "jsval \<Rightarrow> StrapiFormat \<Rightarrow> ValidationOpts \<Rightarrow> nat \<Rightarrow> ItemResult" where
  "validateRelationsWithDetails item fmt options index =
     (if \<not> truthy item \<or> \<not> typeof_object item then empty_result
      else foldl
        (\<lambda>r (key, v).
           if truthy v \<and> typeof_object v \<and> isRelationField v fmt
           then merge_result (validateRelationWithDetails v fmt options index key) r
           else r)
        empty_result (js_entries item))"

definition validateItemWithDetails ::
  "jsval \<Rightarrow> StrapiFormat \<Rightarrow> ValidationOpts \<Rightarrow> nat \<Rightarrow> ItemResult" where
  "validateItemWithDetails item expectedFormat options index =
     (if \<not> truthy item \<or> \<not> typeof_object item
      then fail_with (''Item '' @ show_nat index @ '': Expected object, got '' @ js_typeof item)
             empty_result
      else
        let r1 = (if expectedFormat = V4 \<and> \<not> truthy (js_get item ''id'')
                  then fail_with (''Item '' @ show_nat index @ '': Missing required field ''
                         @ quoted ''id'' @ '' for v4 format'') empty_result
                  else empty_result);
            r2 = (if expectedFormat = V4 \<and> \<not> truthy (js_get item ''attributes'') \<and> strict options
                  then fail_with (''Item '' @ show_nat index @ '': Missing required field ''
                         @ quoted ''attributes'' @ '' for v4 format'') r1
                  else r1);
            r3 = (if expectedFormat = V4 \<and> truthy (js_get item ''documentId'')
                     \<and> \<not> allowMixed options
                  then r2 \<lparr> r_warnings := r_warnings r2 @ [''Item '' @ show_nat index
                         @ '': Contains v5 field '' @ quoted ''documentId'' @ '' in v4 format''] \<rparr>
                  else r2);
            r4 = (if expectedFormat = V5 \<and> \<not> truthy (js_get item ''documentId'')
                  then fail_with (''Item '' @ show_nat index @ '': Missing required field ''
                         @ quoted ''documentId'' @ '' for v5 format'') r3
                  else r3);
            r5 = (if expectedFormat = V5 \<and> truthy (js_get item ''attributes'')
                     \<and> \<not> allowMixed options
                  then r4 \<lparr> r_warnings := r_warnings r4 @ [''Item '' @ show_nat index
                         @ '': Contains v4 field '' @ quoted ''attributes'' @ '' in v5 format''] \<rparr>
                  else r4)
        in if checkRelations options
           then merge_result (validateRelationsWithDetails item expectedFormat options index) r5
           else r5)"

definition getValidationReport ::
  "jsval \<Rightarrow> StrapiFormat \<Rightarrow> ValidationOptions \<Rightarrow> ValidationReport" where
  "getValidationReport data expectedFormat options =
     (let report = \<lparr> isValid = True, format = expectedFormat, itemCount = 0, validItems = 0,
                      invalidItems = 0, errors = [], warnings = [] \<rparr>
      in if \<not> truthy data then report
         else
           let opts = validation_defaults options;
               items = as_items data;
               report1 = report \<lparr> itemCount := length items \<rparr>;
               report2 = foldl
                 (\<lambda>rep (index, item).
                    let itemValidation = validateItemWithDetails item expectedFormat opts index;
                        rep1 = (if r_isValid itemValidation
                                then rep \<lparr> validItems := validItems rep + 1 \<rparr>
                                else rep \<lparr> invalidItems := invalidItems rep + 1,
                                           errors := errors rep @ r_errors itemValidation \<rparr>)
                    in rep1 \<lparr> warnings := warnings rep1 @ r_warnings itemValidation \<rparr>)
                 report1 (enumerate 0 items)
           in report2 \<lparr> isValid := (invalidItems report2 = 0) \<rparr>)"

text \<open>\<open>options = {}\<close>: every option left to its default.\<close>

definition no_options :: ValidationOptions where
  "no_options = \<lparr> opt_strict = None, opt_allowMixed = None, opt_checkRelations = None,
                   opt_maxDepth = None \<rparr>"

section \<open>The identity registry (\<open>IdMapper\<close>)\<close>

record IdMapping =
  v4Id :: jsval
  v5DocumentId :: string
  contentType :: string
  createdAt :: string

text \<open>
  The two static \<open>Map\<close>s of the class. A \<open>Map\<close> keeps its keys in insertion order:
  \<open>set\<close> is \<open>AList.update\<close> (an existing key keeps its place), \<open>get\<close> is \<open>map_of\<close>,
  \<open>delete\<close> is \<open>AList.delete\<close>.
\<close>

record IdMapper =
  mappings :: "(string \<times> IdMapping) list"
  reverseMappings :: "(string \<times> IdMapping) list"

definition empty_registry :: IdMapper where
  "empty_registry = \<lparr> mappings = [], reverseMappings = [] \<rparr>"

text \<open>
  What the environment returns when a new identifier is synthesized: \<open>Date.now()\<close>,
  \<open>Math.random().toString(36).substr(2, 8)\<close> and \<open>new Date().toISOString()\<close>.
\<close>

record Reading =
  now_ms :: nat
  random_suffix :: string
  iso_time :: string

text \<open>\<open>s.replace(pat, '')\<close> for a string pattern: the first occurrence is removed.\<close>

fun remove_first :: "string \<Rightarrow> string \<Rightarrow> string" where
  "remove_first pat [] = []"
| "remove_first pat (c # cs) =
     (if take (length pat) (c # cs) = pat then drop (length pat) (c # cs)
      else c # remove_first pat cs)"

text \<open>
  \<open>s.replace(/\.[^.]+$/, '')\<close>: the text from the last dot on is removed, when at least one
  character follows that dot.
\<close>

definition strip_last_extension :: "string \<Rightarrow> string" where
  "strip_last_extension s =
     (let suffix = takeWhile (\<lambda>c. c \<noteq> CHR ''.'') (rev s)
      in if length suffix < length s \<and> suffix \<noteq> []
         then take (length s - length suffix - 1) s
         else s)"

definition generateDocumentId :: "Reading \<Rightarrow> jsval \<Rightarrow> string \<Rightarrow> string" where
  "generateDocumentId rd v4 ctype =
     (let cleanContentType = strip_last_extension (remove_first ''api::'' ctype)
      in cleanContentType @ ''_'' @ js_to_string v4 @ ''_'' @ show_nat (now_ms rd)
           @ ''_'' @ random_suffix rd)"

definition mapping_key :: "string \<Rightarrow> jsval \<Rightarrow> string" where
  "mapping_key ctype v4 = ctype @ '':'' @ js_to_string v4"

definition mapV4ToV5 :: "Reading \<Rightarrow> jsval \<Rightarrow> string \<Rightarrow> IdMapper \<Rightarrow> string \<times> IdMapper" where
  "mapV4ToV5 rd v4 ctype reg =
     (let key = mapping_key ctype v4
      in case map_of (mappings reg) key of
           Some mapping \<Rightarrow> (v5DocumentId mapping, reg)
         | None \<Rightarrow>
             let documentId = generateDocumentId rd v4 ctype;
                 newMapping = \<lparr> v4Id = v4, v5DocumentId = documentId, contentType = ctype,
                                createdAt = iso_time rd \<rparr>
             in (documentId,
                 reg \<lparr> mappings := AList.update key newMapping (mappings reg),
                       reverseMappings := AList.update documentId newMapping (reverseMappings reg) \<rparr>))"

datatype error = TypeError string | Error string | Unmodelled string

text \<open>\<open>s.match(/(\d+)/)\<close>: the first run of decimal digits, if any.\<close>

definition first_digit_run :: "string \<Rightarrow> string" where
  "first_digit_run s = takeWhile is_digit (dropWhile (\<lambda>c. \<not> is_digit c) s)"

text \<open>
  \<open>mapV5ToV4\<close> reads the registry only. The argument is declared a string, but
  \<open>transformV5ItemToV4\<close> passes whatever truthy \<open>documentId\<close> an item carries: a value that
  is not a string is no key of either index and has no \<open>match\<close> method, so the call throws.
\<close>

definition mapV5ToV4 :: "jsval \<Rightarrow> string \<Rightarrow> IdMapper \<Rightarrow> error + jsval" where
  "mapV5ToV4 documentId ctype reg =
     (case documentId of
        JStr d \<Rightarrow>
          (let hit = (case map_of (reverseMappings reg) d of
                        Some mapping \<Rightarrow> if contentType mapping = ctype then Some mapping else None
                      | None \<Rightarrow> None)
           in case hit of
                Some mapping \<Rightarrow> Inr (v4Id mapping)
              | None \<Rightarrow>
                  (case find (\<lambda>km. v5DocumentId (snd km) = d \<and> contentType (snd km) = ctype)
                          (mappings reg) of
                     Some km \<Rightarrow> Inr (v4Id (snd km))
                   | None \<Rightarrow>
                       let numericMatch = first_digit_run d
                       in if numericMatch \<noteq> [] then Inr (JNum (int (digits_value numericMatch)))
                          else Inr documentId))
      | _ \<Rightarrow> Inl (TypeError ''documentId.match is not a function''))"

definition hasMapping :: "jsval \<Rightarrow> string \<Rightarrow> IdMapper \<Rightarrow> bool" where
  "hasMapping v4 ctype reg \<longleftrightarrow> map_of (mappings reg) (mapping_key ctype v4) \<noteq> None"

definition clearMappings :: "IdMapper \<Rightarrow> IdMapper" where
  "clearMappings reg = reg \<lparr> mappings := [], reverseMappings := [] \<rparr>"

definition clearMappingsForContentType :: "string \<Rightarrow> IdMapper \<Rightarrow> IdMapper" where
  "clearMappingsForContentType ctype reg =
     (let selected = filter (\<lambda>km. contentType (snd km) = ctype) (mappings reg);
          keysToDelete = map fst selected;
          documentIdsToDelete = map (\<lambda>km. v5DocumentId (snd km)) selected
      in reg \<lparr> mappings := foldl (\<lambda>al key. AList.delete key al) (mappings reg) keysToDelete,
               reverseMappings :=
                 foldl (\<lambda>al docId. AList.delete docId al) (reverseMappings reg)
                   documentIdsToDelete \<rparr>)"

text \<open>
  \<open>exportMappings\<close> writes the array of \<open>{ key, ...mapping }\<close> records of the forward
  index as JSON; \<open>importMappings\<close> parses such a text. \<open>JSON.stringify\<close> and \<open>JSON.parse\<close>
  are not modelled: the export is the list of records, and the import takes the outcome of
  the parse, either the message of the error \<open>JSON.parse\<close> threw or the array of records.
\<close>

definition exportMappings :: "IdMapper \<Rightarrow> (string \<times> IdMapping) list" where
  "exportMappings reg = mappings reg"

definition import_item :: "IdMapper \<Rightarrow> string \<times> IdMapping \<Rightarrow> IdMapper" where
  "import_item reg item =
     (case item of (key, mapping) \<Rightarrow>
        reg \<lparr> mappings := AList.update key mapping (mappings reg),
              reverseMappings :=
                AList.update (v5DocumentId mapping) mapping (reverseMappings reg) \<rparr>)"

definition importMappings ::
  "string + (string \<times> IdMapping) list \<Rightarrow> IdMapper \<Rightarrow> error + IdMapper" where
  "importMappings parsed reg =
     (case parsed of
        Inl message \<Rightarrow> Inl (Error (''Failed to import mappings: '' @ message))
      | Inr mappingsArray \<Rightarrow> Inr (foldl import_item (clearMappings reg) mappingsArray))"

subsection \<open>The registry invariant\<close>

text \<open>
  A record is found again through the reverse index: the reverse entry of its
  \<open>v5DocumentId\<close> has the same \<open>contentType\<close> and the same \<open>v4Id\<close>, so \<open>mapV5ToV4\<close> resolves
  it to that \<open>v4Id\<close>.
\<close>

definition resolves :: "IdMapper \<Rightarrow> IdMapping \<Rightarrow> bool" where
  "resolves reg m \<longleftrightarrow>
     (case map_of (reverseMappings reg) (v5DocumentId m) of
        None \<Rightarrow> False
      | Some m' \<Rightarrow> contentType m' = contentType m \<and> v4Id m' = v4Id m)"

text \<open>The composite key under which the forward index files a record.\<close>

definition key_of :: "IdMapping \<Rightarrow> string" where
  "key_of m = mapping_key (contentType m) (v4Id m)"

text \<open>
  The invariant of the registry. Both indices are maps (no key twice). The forward index
  holds every record under the composite key of its own \<open>contentType\<close> and \<open>v4Id\<close>, so a pair
  has one record and one \<open>v5DocumentId\<close>, and the reverse index holds that very record under
  its \<open>v5DocumentId\<close>. The reverse index holds every record under its own \<open>v5DocumentId\<close>, and
  the forward index holds that very record under its composite key: the reverse index has no
  entry that the forward index lacks.
\<close>

definition consistent :: "IdMapper \<Rightarrow> bool" where
  "consistent reg \<longleftrightarrow>
     distinct (map fst (mappings reg)) \<and> distinct (map fst (reverseMappings reg))
     \<and> list_all (\<lambda>km. fst km = key_of (snd km)
                       \<and> map_of (reverseMappings reg) (v5DocumentId (snd km)) = Some (snd km))
          (mappings reg)
     \<and> list_all (\<lambda>dm. fst dm = v5DocumentId (snd dm)
                       \<and> map_of (mappings reg) (key_of (snd dm)) = Some (snd dm))
          (reverseMappings reg)"

text \<open>
  The composite key \<open>`${contentType}:${v4Id}`\<close> is free in the forward index, or it holds a
  record of exactly this \<open>v4Id\<close> and \<open>contentType\<close> that the reverse index resolves.
\<close>

definition key_faithful :: "IdMapper \<Rightarrow> string \<Rightarrow> jsval \<Rightarrow> bool" where
  "key_faithful reg ctype v \<longleftrightarrow>
     (case map_of (mappings reg) (mapping_key ctype v) of
        None \<Rightarrow> True
      | Some m \<Rightarrow> v4Id m = v \<and> contentType m = ctype \<and> resolves reg m)"

text \<open>
  Imported records that can be told apart: each is filed under its own composite key, and two
  of them that share a key or a \<open>v5DocumentId\<close> are one and the same record.
\<close>

definition faithful_records :: "(string \<times> IdMapping) list \<Rightarrow> bool" where
  "faithful_records items \<longleftrightarrow>
     list_all (\<lambda>a. fst a = key_of (snd a)
        \<and> list_all (\<lambda>b.
              fst a = fst b \<or> v5DocumentId (snd a) = v5DocumentId (snd b) \<longrightarrow> a = b) items)
       items"

text \<open>The entry of the reverse index that an item of the forward index gives rise to.\<close>

definition reverse_entry :: "string \<times> IdMapping \<Rightarrow> string \<times> IdMapping" where
  "reverse_entry km = (v5DocumentId (snd km), snd km)"

text \<open>The record that \<open>mapV4ToV5\<close> files on a miss.\<close>

definition new_record :: "Reading \<Rightarrow> jsval \<Rightarrow> string \<Rightarrow> IdMapping" where
  "new_record rd v ctype =
     \<lparr> v4Id = v, v5DocumentId = generateDocumentId rd v ctype, contentType = ctype,
       createdAt = iso_time rd \<rparr>"

text \<open>The synthesized identifier is not yet a key of the reverse index.\<close>

definition fresh_id :: "Reading \<Rightarrow> jsval \<Rightarrow> string \<Rightarrow> IdMapper \<Rightarrow> bool" where
  "fresh_id rd v ctype reg \<longleftrightarrow>
     map_of (reverseMappings reg) (generateDocumentId rd v ctype) = None"

subsection \<open>Example inputs\<close>

definition example_reading :: Reading where
  "example_reading =
     \<lparr> now_ms = 1700, random_suffix = ''k3j2h1g0'', iso_time = ''2023-11-14T22:13:20.000Z'' \<rparr>"

text \<open>The registry after \<open>mapV4ToV5("1", "article")\<close> on the empty registry.\<close>

definition registry_with_string_id :: IdMapper where
  "registry_with_string_id = snd (mapV4ToV5 example_reading (JStr ''1'') ''article'' empty_registry)"

text \<open>Two export records under different keys that share one \<open>v5DocumentId\<close>.\<close>

definition clashing_import :: "(string \<times> IdMapping) list" where
  "clashing_import =
     [(''article:1'', \<lparr> v4Id = JNum 1, v5DocumentId = ''doc'', contentType = ''article'',
                        createdAt = ''2023-11-14T22:13:20.000Z'' \<rparr>),
      (''article:2'', \<lparr> v4Id = JNum 2, v5DocumentId = ''doc'', contentType = ''article'',
                        createdAt = ''2023-11-14T22:13:20.000Z'' \<rparr>)]"

section \<open>Objects with identity: the heap\<close>

text \<open>
  The transformer tracks objects by reference (\<open>CIRCULAR_REF_CACHE\<close> is a \<open>WeakSet\<close>), builds
  new objects and writes into them, and \<open>transformResponse\<close> writes into an object its caller
  still holds. Its model therefore works on a store: a value is a primitive or a reference,
  and the heap maps each address to an object or an array. Allocation appends to the heap.
\<close>

datatype hval =
    HUndefined
  | HNull
  | HBool bool
  | HNum int
  | HNaN
  | HStr string
  | HRef nat

datatype hobj = HObject "(string \<times> hval) list" | HArray "hval list"

fun h_truthy :: "hval \<Rightarrow> bool" where
  "h_truthy HUndefined = False"
| "h_truthy HNull = False"
| "h_truthy (HBool b) = b"
| "h_truthy (HNum n) = (n \<noteq> 0)"
| "h_truthy HNaN = False"
| "h_truthy (HStr s) = (s \<noteq> [])"
| "h_truthy (HRef a) = True"

text \<open>\<open>x && typeof x === 'object'\<close>: exactly the references.\<close>

fun is_ref :: "hval \<Rightarrow> bool" where
  "is_ref (HRef a) = True"
| "is_ref _ = False"

text \<open>
  The object at an address. Every reference of a well-formed heap is below its length; a
  dangling address reads as an empty object.
\<close>

definition cell :: "hobj list \<Rightarrow> nat \<Rightarrow> hobj" where
  "cell h a = (if a < length h then h ! a else HObject [])"

text \<open>Property read \<open>x.k\<close> for the names the code reads (see \<open>js_get\<close>).\<close>

definition h_get :: "hobj list \<Rightarrow> hval \<Rightarrow> string \<Rightarrow> hval" where
  "h_get h x k =
     (case x of
        HRef a \<Rightarrow>
          (case cell h a of
             HObject kvs \<Rightarrow> (case map_of kvs k of Some v \<Rightarrow> v | None \<Rightarrow> HUndefined)
           | HArray xs \<Rightarrow> HUndefined)
      | _ \<Rightarrow> HUndefined)"

definition h_isArray :: "hobj list \<Rightarrow> hval \<Rightarrow> bool" where
  "h_isArray h x =
     (case x of
        HRef a \<Rightarrow> (case cell h a of HArray xs \<Rightarrow> True | HObject kvs \<Rightarrow> False)
      | _ \<Rightarrow> False)"

text \<open>The elements of an array (used only under \<open>Array.isArray\<close>).\<close>

definition h_items :: "hobj list \<Rightarrow> hval \<Rightarrow> hval list" where
  "h_items h x =
     (case x of
        HRef a \<Rightarrow> (case cell h a of HArray xs \<Rightarrow> xs | HObject kvs \<Rightarrow> [])
      | _ \<Rightarrow> [])"

text \<open>
  The own enumerable properties that an object spread \<open>{...x}\<close> or a rest pattern copies: the
  entries of an object, the indexed elements of an array, the indexed characters of a string,
  nothing for the other primitives.
\<close>

definition own_entries :: "hobj list \<Rightarrow> hval \<Rightarrow> (string \<times> hval) list" where
  "own_entries h x =
     (case x of
        HRef a \<Rightarrow>
          (case cell h a of
             HObject kvs \<Rightarrow> kvs
           | HArray xs \<Rightarrow> zip (map show_nat [0..<length xs]) xs)
      | HStr s \<Rightarrow> zip (map show_nat [0..<length s]) (map (\<lambda>c. HStr [c]) s)
      | _ \<Rightarrow> [])"

text \<open>\<open>{ ...base, ...x }\<close>: each copied property is set in turn.\<close>

definition spread_into :: "(string \<times> hval) list \<Rightarrow> (string \<times> hval) list \<Rightarrow> (string \<times> hval) list" where
  "spread_into base entries = foldl (\<lambda>al kv. AList.update (fst kv) (snd kv) al) base entries"

text \<open>The primitives, as the values of the registry.\<close>

fun to_js :: "hval \<Rightarrow> jsval option" where
  "to_js HUndefined = Some JUndefined"
| "to_js HNull = Some JNull"
| "to_js (HBool b) = Some (JBool b)"
| "to_js (HNum n) = Some (JNum n)"
| "to_js HNaN = Some JNaN"
| "to_js (HStr s) = Some (JStr s)"
| "to_js (HRef a) = None"

fun of_js :: "jsval \<Rightarrow> hval option" where
  "of_js JUndefined = Some HUndefined"
| "of_js JNull = Some HNull"
| "of_js (JBool b) = Some (HBool b)"
| "of_js (JNum n) = Some (HNum n)"
| "of_js JNaN = Some HNaN"
| "of_js (JStr s) = Some (HStr s)"
| "of_js (JArr xs) = None"
| "of_js (JObj kvs) = None"

subsection \<open>State and outcomes\<close>

text \<open>
  The state the transformer reads and writes: the heap, the \<open>CIRCULAR_REF_CACHE\<close> (the
  addresses in it), the registry of \<open>IdMapper\<close>, and the environment: \<open>clock n\<close> is what the
  \<open>n\<close>-th call of \<open>mapV4ToV5\<close> reads from the clock and the random generator.
\<close>

record TState =
  heap :: "hobj list"
  in_progress :: "nat list"
  registry :: IdMapper
  clock :: "nat \<Rightarrow> Reading"
  tick :: nat

text \<open>
  An outcome is \<open>None\<close> when the call stack allowance (the first argument of every recursive
  function below, one unit per nested call) does not suffice; otherwise the value returned or
  the error thrown, and the state left behind.
\<close>

type_synonym 'a outcome = "((error + 'a) \<times> TState) option"

definition ret :: "'a \<Rightarrow> TState \<Rightarrow> 'a outcome" where
  "ret v s = Some (Inr v, s)"

definition throw :: "error \<Rightarrow> TState \<Rightarrow> 'a outcome" where
  "throw e s = Some (Inl e, s)"

definition and_then :: "'a outcome \<Rightarrow> ('a \<Rightarrow> TState \<Rightarrow> 'b outcome) \<Rightarrow> 'b outcome" where
  "and_then m f =
     (case m of
        None \<Rightarrow> None
      | Some (Inl e, s) \<Rightarrow> Some (Inl e, s)
      | Some (Inr v, s) \<Rightarrow> f v s)"

text \<open>\<open>try { m } finally { cleanup }\<close>\<close>

definition try_finally :: "'a outcome \<Rightarrow> (TState \<Rightarrow> TState) \<Rightarrow> 'a outcome" where
  "try_finally m cleanup = (case m of None \<Rightarrow> None | Some (r, s) \<Rightarrow> Some (r, cleanup s))"

text \<open>\<open>xs.map(f)\<close> without the allocation of the new array: the calls in order.\<close>

fun map_calls :: "('a \<Rightarrow> TState \<Rightarrow> 'b outcome) \<Rightarrow> 'a list \<Rightarrow> TState \<Rightarrow> ('b list) outcome" where
  "map_calls f [] s = ret [] s"
| "map_calls f (x # xs) s =
     and_then (f x s) (\<lambda>y s1. and_then (map_calls f xs s1) (\<lambda>ys s2. ret (y # ys) s2))"

definition alloc :: "hobj \<Rightarrow> TState \<Rightarrow> hval outcome" where
  "alloc obj s = ret (HRef (length (heap s))) (s \<lparr> heap := heap s @ [obj] \<rparr>)"

text \<open>\<open>xs.map(f)\<close>: the calls in order, and the new array.\<close>

definition array_map :: "('a \<Rightarrow> TState \<Rightarrow> hval outcome) \<Rightarrow> 'a list \<Rightarrow> TState \<Rightarrow> hval outcome" where
  "array_map f xs s = and_then (map_calls f xs s) (\<lambda>ys s1. alloc (HArray ys) s1)"

text \<open>\<open>obj[key] = v\<close> on the object at address \<open>a\<close>.\<close>

definition set_prop :: "nat \<Rightarrow> string \<Rightarrow> hval \<Rightarrow> TState \<Rightarrow> TState" where
  "set_prop a key v s =
     (case cell (heap s) a of
        HObject kvs \<Rightarrow> s \<lparr> heap := (heap s)[a := HObject (AList.update key v kvs)] \<rparr>
      | HArray xs \<Rightarrow> s)"

text \<open>
  The calls into \<open>IdMapper\<close>. The registry holds primitive identifiers; an identifier that is
  itself an object is outside the model.
\<close>

definition call_mapV4ToV5 :: "hval \<Rightarrow> string \<Rightarrow> TState \<Rightarrow> string outcome" where
  "call_mapV4ToV5 v ct s =
     (case to_js v of
        None \<Rightarrow> throw (Unmodelled ''object as v4Id'') s
      | Some j \<Rightarrow>
          (case mapV4ToV5 (clock s (tick s)) j ct (registry s) of
             (documentId, reg) \<Rightarrow> ret documentId (s \<lparr> registry := reg, tick := tick s + 1 \<rparr>)))"

definition call_mapV5ToV4 :: "hval \<Rightarrow> string \<Rightarrow> TState \<Rightarrow> hval outcome" where
  "call_mapV5ToV4 documentId ct s =
     (case to_js documentId of
        None \<Rightarrow> throw (TypeError ''documentId.match is not a function'') s
      | Some j \<Rightarrow>
          (case mapV5ToV4 j ct (registry s) of
             Inl e \<Rightarrow> throw e s
           | Inr v \<Rightarrow>
               (case of_js v of
                  None \<Rightarrow> throw (Unmodelled ''object as v4Id'') s
                | Some w \<Rightarrow> ret w s)))"

section \<open>The transformer (\<open>AdvancedDataTransformer\<close>, \<open>MediaMapper\<close>)\<close>

text \<open>\<open>TransformationOptions\<close> as the caller passes them (every field optional).\<close>

record TransformationOptions =
  opt_contentType :: "string option"
  opt_preserveOriginalId :: "bool option"
  opt_validateResult :: "bool option"
  opt_depth :: "int option"

text \<open>
  \<open>Required<TransformationOptions>\<close>; the field \<open>contentType\<close> is named \<open>ctype\<close> here, apart
  from the field of \<open>IdMapping\<close>.
\<close>

record TransformOpts =
  ctype :: string
  preserveOriginalId :: bool
  validateResult :: bool
  depth :: int

definition MAX_DEPTH :: int where
  "MAX_DEPTH = 10"

definition transform_defaults :: "TransformationOptions \<Rightarrow> TransformOpts" where
  "transform_defaults options =
     \<lparr> ctype = (case opt_contentType options of
                  Some c \<Rightarrow> if c \<noteq> [] then c else ''unknown''
                | None \<Rightarrow> ''unknown''),
       preserveOriginalId = (case opt_preserveOriginalId options of Some b \<Rightarrow> b | None \<Rightarrow> True),
       validateResult = (case opt_validateResult options of Some b \<Rightarrow> b | None \<Rightarrow> False),
       depth = (case opt_depth options of Some d \<Rightarrow> d | None \<Rightarrow> 0) \<rparr>"

text \<open>A full option record passed where optional fields are expected.\<close>

definition as_options :: "TransformOpts \<Rightarrow> TransformationOptions" where
  "as_options opts =
     \<lparr> opt_contentType = Some (ctype opts),
       opt_preserveOriginalId = Some (preserveOriginalId opts),
       opt_validateResult = Some (validateResult opts),
       opt_depth = Some (depth opts) \<rparr>"

definition isRelationData :: "hobj list \<Rightarrow> hval \<Rightarrow> StrapiFormat \<Rightarrow> bool" where
  "isRelationData h data fmt =
     (if \<not> is_ref data then False
      else case fmt of
        V4 \<Rightarrow> h_get h data ''data'' \<noteq> HUndefined
      | V5 \<Rightarrow> h_isArray h data \<or> h_get h data ''documentId'' \<noteq> HUndefined)"

definition isMediaData :: "hobj list \<Rightarrow> hval \<Rightarrow> bool" where
  "isMediaData h data =
     (if \<not> is_ref data then False
      else list_ex (\<lambda>field. h_get h data field \<noteq> HUndefined)
             [''url'', ''mime'', ''hash'', ''ext'', ''size'']
           \<and> (h_get h data ''id'' \<noteq> HUndefined \<or> h_get h data ''documentId'' \<noteq> HUndefined))"

text \<open>The properties a rest pattern \<open>{ k1, k2, ...rest }\<close> collects.\<close>

definition rest_without :: "string list \<Rightarrow> (string \<times> hval) list \<Rightarrow> (string \<times> hval) list" where
  "rest_without keys entries = filter (\<lambda>kv. fst kv \<notin> set keys) entries"

subsection \<open>\<open>MediaMapper\<close>\<close>

definition transformV4MediaToV5 :: "hval \<Rightarrow> TState \<Rightarrow> hval outcome" where
  "transformV4MediaToV5 media s =
     (if \<not> h_truthy media \<or> \<not> h_truthy (h_get (heap s) media ''attributes'') then ret media s
      else
        let id = h_get (heap s) media ''id'';
            attributes = h_get (heap s) media ''attributes''
        in and_then (call_mapV4ToV5 id ''media'' s) (\<lambda>documentId s1.
             alloc (HObject (spread_into [(''documentId'', HStr documentId), (''id'', id)]
                      (own_entries (heap s1) attributes))) s1))"

definition transformV5MediaToV4 :: "hval \<Rightarrow> TState \<Rightarrow> hval outcome" where
  "transformV5MediaToV4 media s =
     (if \<not> h_truthy media \<or> \<not> h_truthy (h_get (heap s) media ''documentId'') then ret media s
      else
        let documentId = h_get (heap s) media ''documentId'';
            id = h_get (heap s) media ''id''
        in and_then
             (alloc (HObject (rest_without [''documentId'', ''id''] (own_entries (heap s) media))) s)
             (\<lambda>attributes s1.
                and_then (if h_truthy id then ret id s1 else call_mapV5ToV4 documentId ''media'' s1)
                  (\<lambda>newId s2. alloc (HObject [(''id'', newId), (''attributes'', attributes)]) s2)))"

definition transformMedia :: "hval \<Rightarrow> StrapiFormat \<Rightarrow> StrapiFormat \<Rightarrow> TState \<Rightarrow> hval outcome" where
  "transformMedia media src tgt s =
     (if \<not> h_truthy media \<or> src = tgt then ret media s
      else if src = V4 \<and> tgt = V5 then transformV4MediaToV5 media s
      else if src = V5 \<and> tgt = V4 then transformV5MediaToV4 media s
      else ret media s)"

subsection \<open>The cycle guard\<close>

fun in_cache :: "TState \<Rightarrow> hval \<Rightarrow> bool" where
  "in_cache s (HRef a) = (a \<in> set (in_progress s))"
| "in_cache s _ = False"

fun cache_add :: "hval \<Rightarrow> TState \<Rightarrow> TState" where
  "cache_add (HRef a) s = s \<lparr> in_progress := List.insert a (in_progress s) \<rparr>"
| "cache_add _ s = s"

fun cache_delete :: "hval \<Rightarrow> TState \<Rightarrow> TState" where
  "cache_delete (HRef a) s = s \<lparr> in_progress := removeAll a (in_progress s) \<rparr>"
| "cache_delete _ s = s"

text \<open>\<open>obj[key] = v\<close>\<close>

fun assign :: "hval \<Rightarrow> string \<Rightarrow> hval \<Rightarrow> TState \<Rightarrow> TState" where
  "assign (HRef a) key v s = set_prop a key v s"
| "assign _ key v s = s"

text \<open>
  \<open>Object.keys(obj).forEach(key => { if (obj[key] && typeof obj[key] === 'object')
  obj[key] = f(obj[key]) })\<close> over the keys taken before the loop.
\<close>

fun for_each_key ::
  "(hval \<Rightarrow> TState \<Rightarrow> hval outcome) \<Rightarrow> hval \<Rightarrow> string list \<Rightarrow> TState \<Rightarrow> unit outcome" where
  "for_each_key f obj [] s = ret () s"
| "for_each_key f obj (key # keys) s =
     (let v = h_get (heap s) obj key
      in if is_ref v
         then and_then (f v s) (\<lambda>v' s1. for_each_key f obj keys (assign obj key v' s1))
         else for_each_key f obj keys s)"

subsection \<open>The recursive functions\<close>

text \<open>
  The first argument bounds the depth of nested calls: a call with allowance \<open>Suc n\<close> gives
  \<open>n\<close> to the calls it makes. \<open>console.warn\<close> is not modelled.
\<close>

function transform ::
    "nat \<Rightarrow> hval \<Rightarrow> StrapiFormat \<Rightarrow> StrapiFormat \<Rightarrow> TransformationOptions \<Rightarrow> TState \<Rightarrow> hval outcome"
  and transformV4ToV5 :: "nat \<Rightarrow> hval \<Rightarrow> TransformOpts \<Rightarrow> TState \<Rightarrow> hval outcome"
  and transformV4ItemToV5 :: "nat \<Rightarrow> hval \<Rightarrow> TransformOpts \<Rightarrow> TState \<Rightarrow> hval outcome"
  and transformV5ToV4 :: "nat \<Rightarrow> hval \<Rightarrow> TransformOpts \<Rightarrow> TState \<Rightarrow> hval outcome"
  and transformV5ItemToV4 :: "nat \<Rightarrow> hval \<Rightarrow> TransformOpts \<Rightarrow> TState \<Rightarrow> hval outcome"
  and transformNestedData ::
    "nat \<Rightarrow> hval \<Rightarrow> StrapiFormat \<Rightarrow> StrapiFormat \<Rightarrow> TransformOpts \<Rightarrow> TState \<Rightarrow> hval outcome"
  and transformRelationData ::
    "nat \<Rightarrow> hval \<Rightarrow> StrapiFormat \<Rightarrow> StrapiFormat \<Rightarrow> TransformOpts \<Rightarrow> TState \<Rightarrow> hval outcome"
where
  "transform fuel data src tgt options s =
   (case fuel of 0 \<Rightarrow> None | Suc n \<Rightarrow>
     (if src = tgt then ret data s
      else
        let opts = transform_defaults options
        in if depth opts > MAX_DEPTH then ret data s
           else if is_ref data \<and> in_cache s data
             then alloc (HObject [(''__circular_ref'', HBool True)]) s
           else
             try_finally
               (if src = V4 \<and> tgt = V5 then transformV4ToV5 n data opts (cache_add data s)
                else if src = V5 \<and> tgt = V4 then transformV5ToV4 n data opts (cache_add data s)
                else ret data (cache_add data s))
               (cache_delete data)))"
| "transformV4ToV5 fuel data options s =
   (case fuel of 0 \<Rightarrow> None | Suc n \<Rightarrow>
     (if \<not> h_truthy data then ret data s
      else if h_isArray (heap s) data
        then array_map (\<lambda>item. transformV4ItemToV5 n item options) (h_items (heap s) data) s
      else transformV4ItemToV5 n data options s))"
| "transformV4ItemToV5 fuel item options s =
   (case fuel of 0 \<Rightarrow> None | Suc n \<Rightarrow>
     (if \<not> is_ref item then ret item s
      else
        let id = h_get (heap s) item ''id'';
            attributes = h_get (heap s) item ''attributes''
        in if h_truthy id \<and> h_truthy attributes then
             and_then (call_mapV4ToV5 id (ctype options) s) (\<lambda>documentId s1.
               let spread = spread_into [(''documentId'', HStr documentId)]
                              (own_entries (heap s1) attributes);
                   entries = (if preserveOriginalId options
                              then AList.update ''id'' id spread else spread)
               in and_then (alloc (HObject entries) s1) (\<lambda>result s2.
                    and_then
                      (for_each_key
                         (\<lambda>v. transformNestedData n v V4 V5
                                (options \<lparr> depth := depth options + 1 \<rparr>))
                         result (map fst entries) s2)
                      (\<lambda>u s3. ret result s3)))
           else if h_truthy id \<and> \<not> h_truthy attributes then
             and_then (call_mapV4ToV5 id (ctype options) s) (\<lambda>documentId s1.
               alloc (HObject
                  (spread_into
                     [(''documentId'', HStr documentId),
                      (''id'', if preserveOriginalId options then id else HUndefined)]
                     (rest_without [''id''] (own_entries (heap s1) item)))) s1)
           else ret item s))"
| "transformV5ToV4 fuel data options s =
   (case fuel of 0 \<Rightarrow> None | Suc n \<Rightarrow>
     (if \<not> h_truthy data then ret data s
      else if h_isArray (heap s) data
        then array_map (\<lambda>item. transformV5ItemToV4 n item options) (h_items (heap s) data) s
      else transformV5ItemToV4 n data options s))"
| "transformV5ItemToV4 fuel item options s =
   (case fuel of 0 \<Rightarrow> None | Suc n \<Rightarrow>
     (if \<not> is_ref item then ret item s
      else
        let documentId = h_get (heap s) item ''documentId'';
            id = h_get (heap s) item ''id'';
            rest = rest_without [''documentId'', ''id''] (own_entries (heap s) item)
        in if h_truthy documentId then
             and_then (alloc (HObject rest) s) (\<lambda>attributes s1.
               and_then
                 (for_each_key
                    (\<lambda>v. transformNestedData n v V5 V4
                           (options \<lparr> depth := depth options + 1 \<rparr>))
                    attributes (map fst rest) s1)
                 (\<lambda>u s2.
                    and_then
                      (if h_truthy id then ret id s2
                       else call_mapV5ToV4 documentId (ctype options) s2)
                      (\<lambda>newId s3.
                         alloc (HObject [(''id'', newId), (''attributes'', attributes)]) s3)))
           else ret item s))"
| "transformNestedData fuel data src tgt options s =
   (case fuel of 0 \<Rightarrow> None | Suc n \<Rightarrow>
     (if \<not> h_truthy data then ret data s
      else if isRelationData (heap s) data src
        then transformRelationData n data src tgt options s
      else if isMediaData (heap s) data then transformMedia data src tgt s
      else if h_isArray (heap s) data
        then array_map (\<lambda>item. transformNestedData n item src tgt options)
               (h_items (heap s) data) s
      else if is_ref data then transform n data src tgt (as_options options) s
      else ret data s))"
| "transformRelationData fuel relationData src tgt options s =
   (case fuel of 0 \<Rightarrow> None | Suc n \<Rightarrow>
     (if \<not> h_truthy relationData then ret relationData s
      else
        let inner = h_get (heap s) relationData ''data'';
            relOptions = options \<lparr> ctype := ''relation'' \<rparr>
        in if src = V4 \<and> tgt = V5 \<and> h_truthy inner then
             (if h_isArray (heap s) inner
              then array_map (\<lambda>item. transformV4ItemToV5 n item relOptions)
                     (h_items (heap s) inner) s
              else transformV4ItemToV5 n inner relOptions s)
           else if src = V5 \<and> tgt = V4 \<and> h_isArray (heap s) relationData then
             and_then
               (array_map (\<lambda>item. transformV5ItemToV4 n item relOptions)
                  (h_items (heap s) relationData) s)
               (\<lambda>items s1. alloc (HObject [(''data'', items)]) s1)
           else if src = V5 \<and> tgt = V4
                   \<and> h_truthy (h_get (heap s) relationData ''documentId'') then
             and_then (transformV5ItemToV4 n relationData relOptions s)
               (\<lambda>item s1. alloc (HObject [(''data'', item)]) s1)
           else ret relationData s))"
  by pat_completeness auto

termination transform
  by (relation "measure (\<lambda>c. case c of
        Inl (Inl (n, r)) \<Rightarrow> n
      | Inl (Inr (Inl (n, r))) \<Rightarrow> n
      | Inl (Inr (Inr (n, r))) \<Rightarrow> n
      | Inr (Inl (Inl (n, r))) \<Rightarrow> n
      | Inr (Inl (Inr (n, r))) \<Rightarrow> n
      | Inr (Inr (Inl (n, r))) \<Rightarrow> n
      | Inr (Inr (Inr (n, r))) \<Rightarrow> n)") auto

declare
  transform.simps [simp del]
  transformV4ToV5.simps [simp del]
  transformV4ItemToV5.simps [simp del]
  transformV5ToV4.simps [simp del]
  transformV5ItemToV4.simps [simp del]
  transformNestedData.simps [simp del]
  transformRelationData.simps [simp del]

lemmas transform_zero [simp] =
  transform.simps [of 0, unfolded nat.case]
  transformV4ToV5.simps [of 0, unfolded nat.case]
  transformV4ItemToV5.simps [of 0, unfolded nat.case]
  transformV5ToV4.simps [of 0, unfolded nat.case]
  transformV5ItemToV4.simps [of 0, unfolded nat.case]
  transformNestedData.simps [of 0, unfolded nat.case]
  transformRelationData.simps [of 0, unfolded nat.case]

lemmas transform_Suc =
  transform.simps [of "Suc n" for n, unfolded nat.case]
  transformV4ToV5.simps [of "Suc n" for n, unfolded nat.case]
  transformV4ItemToV5.simps [of "Suc n" for n, unfolded nat.case]
  transformV5ToV4.simps [of "Suc n" for n, unfolded nat.case]
  transformV5ItemToV4.simps [of "Suc n" for n, unfolded nat.case]
  transformNestedData.simps [of "Suc n" for n, unfolded nat.case]
  transformRelationData.simps [of "Suc n" for n, unfolded nat.case]

subsection \<open>Batch and response-level operations\<close>

definition batchTransform ::
  "nat \<Rightarrow> hval \<Rightarrow> StrapiFormat \<Rightarrow> StrapiFormat \<Rightarrow> TransformationOptions \<Rightarrow> TState \<Rightarrow> hval outcome" where
  "batchTransform fuel items src tgt options s =
     (case fuel of 0 \<Rightarrow> None | Suc n \<Rightarrow>
        if \<not> h_isArray (heap s) items
        then throw (Error ''batchTransform requires an array of items'') s
        else array_map (\<lambda>item. transform n item src tgt options) (h_items (heap s) items) s)"

text \<open>\<open>a || b\<close>\<close>

definition h_or :: "hval \<Rightarrow> hval \<Rightarrow> hval" where
  "h_or a b = (if h_truthy a then a else b)"

definition transformPagination :: "hval \<Rightarrow> TState \<Rightarrow> hval outcome" where
  "transformPagination pagination s =
     (if \<not> h_truthy pagination then ret pagination s
      else alloc (HObject
         [(''page'', h_or (h_get (heap s) pagination ''page'') (HNum 1)),
          (''pageSize'', h_or (h_get (heap s) pagination ''pageSize'') (HNum 25)),
          (''pageCount'', h_or (h_get (heap s) pagination ''pageCount'') (HNum 1)),
          (''total'', h_or (h_get (heap s) pagination ''total'') (HNum 0))]) s)"

text \<open>
  \<open>transformed.meta?.pagination\<close> is \<open>undefined\<close> when \<open>meta\<close> is \<open>null\<close> or \<open>undefined\<close>, and
  the property read otherwise; \<open>h_get\<close> gives \<open>undefined\<close> in both cases.
\<close>

definition transformResponse ::
  "nat \<Rightarrow> hval \<Rightarrow> StrapiFormat \<Rightarrow> StrapiFormat \<Rightarrow> TransformationOptions \<Rightarrow> TState \<Rightarrow> hval outcome" where
  "transformResponse fuel response src tgt options s =
     (case fuel of 0 \<Rightarrow> None | Suc n \<Rightarrow>
        if \<not> h_truthy response \<or> src = tgt then ret response s
        else
          and_then (alloc (HObject (spread_into [] (own_entries (heap s) response))) s)
            (\<lambda>transformed s1.
               and_then
                 (if h_truthy (h_get (heap s1) transformed ''data'')
                  then and_then
                         (transform n (h_get (heap s1) transformed ''data'') src tgt options s1)
                         (\<lambda>d s2. ret () (assign transformed ''data'' d s2))
                  else ret () s1)
                 (\<lambda>u s2.
                    let meta = h_get (heap s2) transformed ''meta'';
                        pagination = h_get (heap s2) meta ''pagination''
                    in if h_truthy pagination
                       then and_then (transformPagination pagination s2)
                              (\<lambda>p s3. ret transformed (assign meta ''pagination'' p s3))
                       else ret transformed s2)))"

subsection \<open>Example inputs\<close>

text \<open>\<open>options = {}\<close>\<close>

definition no_transform_options :: TransformationOptions where
  "no_transform_options =
     \<lparr> opt_contentType = None, opt_preserveOriginalId = None, opt_validateResult = None,
       opt_depth = None \<rparr>"

text \<open>
  A state with the given heap: nothing in progress, an empty registry, and an environment
  that gives the same reading at every call.
\<close>

definition initial_state :: "hobj list \<Rightarrow> TState" where
  "initial_state h =
     \<lparr> heap = h, in_progress = [], registry = empty_registry,
       clock = (\<lambda>n. example_reading), tick = 0 \<rparr>"

text \<open>
  \<open>const a = { id: 1, attributes: { self: { data: null } } }; a.attributes.self.data = a\<close>:
  the item at address 0 relates to itself.
\<close>

definition self_related :: "hobj list" where
  "self_related =
     [HObject [(''id'', HNum 1), (''attributes'', HRef 1)],
      HObject [(''self'', HRef 2)],
      HObject [(''data'', HRef 0)]]"

text \<open>A heap that holds these three objects at the addresses 0, 1 and 2.\<close>

definition holds_cycle :: "hobj list \<Rightarrow> bool" where
  "holds_cycle h \<longleftrightarrow>
     3 \<le> length h
     \<and> cell h 0 = HObject [(''id'', HNum 1), (''attributes'', HRef 1)]
     \<and> cell h 1 = HObject [(''self'', HRef 2)]
     \<and> cell h 2 = HObject [(''data'', HRef 0)]"

text \<open>
  \<open>const b = { id: 1, attributes: {} }; b.attributes.self = b\<close>: the item is its own
  attribute, without the \<open>{ data: ... }\<close> wrapper of a relation.
\<close>

definition self_attribute :: "hobj list" where
  "self_attribute =
     [HObject [(''id'', HNum 1), (''attributes'', HRef 1)],
      HObject [(''self'', HRef 0)]]"

text \<open>
  A chain of \<open>k\<close> legacy items, each the relation \<open>next\<close> of the one before: level \<open>i\<close>
  takes the addresses \<open>3i\<close> (the item), \<open>3i + 1\<close> (its attributes) and \<open>3i + 2\<close> (the
  relation \<open>{ data: <item i + 1> }\<close>); the last item has the attribute \<open>title\<close> only.
\<close>

definition chain_level :: "nat \<Rightarrow> nat \<Rightarrow> hobj list" where
  "chain_level k i =
     (if Suc i < k then
        [HObject [(''id'', HNum (int i + 1)), (''attributes'', HRef (3 * i + 1))],
         HObject [(''next'', HRef (3 * i + 2))],
         HObject [(''data'', HRef (3 * i + 3))]]
      else
        [HObject [(''id'', HNum (int i + 1)), (''attributes'', HRef (3 * i + 1))],
         HObject [(''title'', HStr ''leaf'')]])"

definition relation_chain :: "nat \<Rightarrow> hobj list" where
  "relation_chain k = concat (map (chain_level k) [0..<k])"

text \<open>The value reached from \<open>x\<close> by reading the properties of a path in turn.\<close>

definition h_path :: "hobj list \<Rightarrow> hval \<Rightarrow> string list \<Rightarrow> hval" where
  "h_path h x path = foldl (h_get h) x path"

text \<open>\<open>[{ documentId: 5 }]\<close>: an array of one modern item whose \<open>documentId\<close> is a number.\<close>

definition numeric_documentId_items :: "hobj list" where
  "numeric_documentId_items = [HArray [HRef 1], HObject [(''documentId'', HNum 5)]]"

text \<open>\<open>{ id: 1, attributes: { title: "a", tags: ["x"] } }\<close>\<close>

definition item_with_tags :: "hobj list" where
  "item_with_tags =
     [HObject [(''id'', HNum 1), (''attributes'', HRef 1)],
      HObject [(''title'', HStr ''a''), (''tags'', HRef 2)],
      HArray [HStr ''x'']]"

subsection \<open>Reading an outcome\<close>

definition returned :: "'a outcome \<Rightarrow> bool" where
  "returned out = (case out of Some (Inr v, s) \<Rightarrow> True | _ \<Rightarrow> False)"

definition thrown :: "'a outcome \<Rightarrow> error option" where
  "thrown out = (case out of Some (Inl e, s) \<Rightarrow> Some e | _ \<Rightarrow> None)"

definition result_of :: "hval outcome \<Rightarrow> hval" where
  "result_of out = (case out of Some (Inr v, s) \<Rightarrow> v | _ \<Rightarrow> HUndefined)"

definition heap_of :: "'a outcome \<Rightarrow> hobj list" where
  "heap_of out = (case out of Some (r, s) \<Rightarrow> heap s | None \<Rightarrow> [])"

text \<open>\<open>transform(transform(x, 'v4', 'v5', o), 'v5', 'v4', o)\<close>\<close>

definition round_trip :: "nat \<Rightarrow> hval \<Rightarrow> TransformationOptions \<Rightarrow> TState \<Rightarrow> hval outcome" where
  "round_trip fuel x options s =
     and_then (transform fuel x V4 V5 options s) (\<lambda>v s1. transform fuel v V5 V4 options s1)"

subsection \<open>Heaps that grow\<close>

text \<open>
  \<open>h'\<close> extends \<open>h\<close>: every object of \<open>h\<close> is still there, unchanged, at its address.
\<close>

definition extends :: "hobj list \<Rightarrow> hobj list \<Rightarrow> bool" where
  "extends h h' \<longleftrightarrow> take (length h) h' = h"

text \<open>If the call comes back at all, the heap it leaves behind extends \<open>h\<close>.\<close>

definition grows_from :: "hobj list \<Rightarrow> 'a outcome \<Rightarrow> bool" where
  "grows_from h out = (case out of None \<Rightarrow> True | Some (r, s') \<Rightarrow> extends h (heap s'))"

text \<open>The set \<open>CIRCULAR_REF_CACHE\<close> of the state holds exactly the addresses \<open>c\<close>.\<close>

definition cache_is :: "nat list \<Rightarrow> TState \<Rightarrow> bool" where
  "cache_is c s = (in_progress s = c)"

text \<open>If the call comes back at all, with a value or an error, the set is \<open>c\<close> afterwards.\<close>

definition keeps_cache :: "nat list \<Rightarrow> 'a outcome \<Rightarrow> bool" where
  "keeps_cache c out = (case out of None \<Rightarrow> True | Some (r, s') \<Rightarrow> cache_is c s')"

text \<open>A value that is a primitive, or a reference to an object the heap holds.\<close>

definition valid_ref :: "hobj list \<Rightarrow> hval \<Rightarrow> bool" where
  "valid_ref h v = (case v of HRef a \<Rightarrow> a < length h | _ \<Rightarrow> True)"

subsection \<open>Well-typed data\<close>

text \<open>
  The identifiers of an object have the declared types (\<open>id: number\<close>,
  \<open>v4Id: string | number\<close>, \<open>documentId: string\<close>) where the registry is asked about them:
  its \<open>id\<close> is a primitive, and its \<open>documentId\<close> is a string or falsy unless the object has
  a truthy \<open>id\<close> (then the \<open>documentId\<close> is never looked up).
\<close>

definition typed_ids :: "hobj list \<Rightarrow> hval \<Rightarrow> bool" where
  "typed_ids h v \<longleftrightarrow>
     \<not> is_ref (h_get h v ''id'')
     \<and> (h_truthy (h_get h v ''id'')
        \<or> (case h_get h v ''documentId'' of HStr d \<Rightarrow> True | w \<Rightarrow> \<not> h_truthy w))"

text \<open>
  A value of nesting depth at most \<open>d\<close>, as every value parsed from JSON has one: a primitive,
  or a reference to an object or array of the heap whose elements have depth at most
  \<open>d - 1\<close>; its objects have each key once and identifiers of the declared types.
\<close>

primrec well_typed :: "nat \<Rightarrow> hobj list \<Rightarrow> hval \<Rightarrow> bool" where
  "well_typed 0 h v = (\<not> is_ref v)"
| "well_typed (Suc d) h v =
     (case v of
        HRef a \<Rightarrow> a < length h \<and> typed_ids h v
          \<and> (case cell h a of
                HObject kvs \<Rightarrow>
                  distinct (map fst kvs) \<and> list_all (\<lambda>kv. well_typed d h (snd kv)) kvs
              | HArray xs \<Rightarrow> list_all (well_typed d h) xs)
      | _ \<Rightarrow> True)"

text \<open>The registry holds primitive legacy identifiers only.\<close>

definition primitive_ids :: "IdMapper \<Rightarrow> bool" where
  "primitive_ids reg \<longleftrightarrow>
     list_all (\<lambda>km. of_js (v4Id (snd km)) \<noteq> None) (mappings reg)
     \<and> list_all (\<lambda>dm. of_js (v4Id (snd dm)) \<noteq> None) (reverseMappings reg)"

text \<open>
  The call returns a value (it neither throws nor exhausts its call stack allowance), and
  leaves a heap that extends \<open>h\<close> and a registry of primitive identifiers.
\<close>

definition returns_from :: "hobj list \<Rightarrow> 'a outcome \<Rightarrow> bool" where
  "returns_from h out =
     (case out of
        Some (Inr v, s') \<Rightarrow> extends h (heap s') \<and> primitive_ids (registry s')
      | _ \<Rightarrow> False)"

text \<open>The object \<open>transformPagination\<close> builds from the pagination \<open>pg\<close> read in heap \<open>h\<close>.\<close>

definition normalized_pagination :: "hobj list \<Rightarrow> hval \<Rightarrow> hobj" where
  "normalized_pagination h pg =
     HObject
       [(''page'', h_or (h_get h pg ''page'') (HNum 1)),
        (''pageSize'', h_or (h_get h pg ''pageSize'') (HNum 25)),
        (''pageCount'', h_or (h_get h pg ''pageCount'') (HNum 1)),
        (''total'', h_or (h_get h pg ''total'') (HNum 0))]"

subsection \<open>Items that survive the round trip\<close>

text \<open>
  A value that \<open>transformNestedData\<close> hands back as it is, in both directions: a primitive,
  or an object (no array) that is no legacy relation (it has no \<open>data\<close>), has no truthy
  \<open>documentId\<close>, and has no truthy \<open>id\<close>; where the object counts as media, it has no truthy
  \<open>attributes\<close> instead.
\<close>

definition plain_value :: "hobj list \<Rightarrow> hval \<Rightarrow> bool" where
  "plain_value h v \<longleftrightarrow>
     \<not> is_ref v
     \<or> (valid_ref h v \<and> \<not> h_isArray h v \<and> \<not> isRelationData h v V4
        \<and> \<not> h_truthy (h_get h v ''documentId'')
        \<and> (if isMediaData h v then \<not> h_truthy (h_get h v ''attributes'')
            else \<not> h_truthy (h_get h v ''id'')))"

text \<open>
  Attributes that the forward conversion can spread into the modern item and the backward
  conversion can collect again: each key once, none of them \<open>id\<close> or \<open>documentId\<close> (the
  two properties the modern item uses itself), and plain values.
\<close>

definition convertible_attributes :: "hobj list \<Rightarrow> (string \<times> hval) list \<Rightarrow> bool" where
  "convertible_attributes h attrs \<longleftrightarrow>
     distinct (map fst attrs)
     \<and> ''id'' \<notin> set (map fst attrs) \<and> ''documentId'' \<notin> set (map fst attrs)
     \<and> list_all (\<lambda>kv. plain_value h (snd kv)) attrs"

text \<open>
  \<open>x\<close> is the legacy item \<open>{ id: idv, attributes: { ...attrs } }\<close> in the heap \<open>h\<close>: an object
  with the two properties \<open>id\<close> and \<open>attributes\<close> and no other (so it has no \<open>documentId\<close>),
  whose \<open>attributes\<close> is an object with the entries \<open>attrs\<close>.
\<close>

definition is_legacy_item :: "hobj list \<Rightarrow> hval \<Rightarrow> hval \<Rightarrow> (string \<times> hval) list \<Rightarrow> bool" where
  "is_legacy_item h x idv attrs \<longleftrightarrow>
     is_ref x \<and> \<not> h_isArray h x
     \<and> set (map fst (own_entries h x)) = {''id'', ''attributes''}
     \<and> h_get h x ''id'' = idv
     \<and> is_ref (h_get h x ''attributes'') \<and> \<not> h_isArray h (h_get h x ''attributes'')
     \<and> own_entries h (h_get h x ''attributes'') = attrs"

text \<open>\<open>{ id: 7, attributes: { title: "a", seo: { k: 1 } } }\<close>\<close>

definition item_with_seo :: "hobj list" where
  "item_with_seo =
     [HObject [(''id'', HNum 7), (''attributes'', HRef 1)],
      HObject [(''title'', HStr ''a''), (''seo'', HRef 2)],
      HObject [(''k'', HNum 1)]]"

text \<open>\<open>{ id: 0, attributes: { tags: ["x"] } }\<close>\<close>

definition item_without_id :: "hobj list" where
  "item_without_id =
     [HObject [(''id'', HNum 0), (''attributes'', HRef 1)],
      HObject [(''tags'', HRef 2)],
      HArray [HStr ''x'']]"

text \<open>
  What the round trip needs of the registry: a record already stored under the key of the
  item has a non-empty \<open>v5DocumentId\<close>, and, when the original id is not preserved, it is the
  record of this id and resolves back to it.
\<close>

definition roundtrip_ready :: "IdMapper \<Rightarrow> string \<Rightarrow> jsval \<Rightarrow> bool \<Rightarrow> bool" where
  "roundtrip_ready reg ct j preserve \<longleftrightarrow>
     (case map_of (mappings reg) (mapping_key ct j) of
        None \<Rightarrow> True
      | Some m \<Rightarrow> v5DocumentId m \<noteq> []
          \<and> (preserve \<or> (v4Id m = j \<and> contentType m = ct \<and> resolves reg m)))"

text \<open>
  \<open>{ data: { id: 1, attributes: { title: "a" } },
      meta: { pagination: { page: 0, total: 7 }, source: "cache" } }\<close>
\<close>

definition envelope :: "hobj list" where
  "envelope =
     [HObject [(''data'', HRef 1), (''meta'', HRef 3)],
      HObject [(''id'', HNum 1), (''attributes'', HRef 2)],
      HObject [(''title'', HStr ''a'')],
      HObject [(''pagination'', HRef 4), (''source'', HStr ''cache'')],
      HObject [(''page'', HNum 0), (''total'', HNum 7)]]"

text \<open>
  The self-related item of \<open>self_related\<close> as the \<open>data\<close> of an envelope (address 3):
  \<open>{ data: a, meta: { pagination: { page: 2 } } }\<close>.
\<close>

definition cyclic_envelope :: "hobj list" where
  "cyclic_envelope =
     self_related @
     [HObject [(''data'', HRef 0), (''meta'', HRef 4)],
      HObject [(''pagination'', HRef 5)],
      HObject [(''page'', HNum 2)]]"

text \<open>\<open>{ data: { documentId: 5 }, meta: { pagination: { page: 2 } } }\<close>\<close>

definition numeric_documentId_envelope :: "hobj list" where
  "numeric_documentId_envelope =
     [HObject [(''data'', HRef 1), (''meta'', HRef 2)],
      HObject [(''documentId'', HNum 5)],
      HObject [(''pagination'', HRef 3)],
      HObject [(''page'', HNum 2)]]"

text \<open>
  \<open>x\<close> heads a chain of \<open>k\<close> legacy items in the heap \<open>h\<close>: an item with a truthy
  primitive \<open>id\<close> whose \<open>attributes\<close> hold the relation \<open>next: { data: <the next item> }\<close>
  only, down to the last item, whose attributes are \<open>{ title: "leaf" }\<close>.
\<close>

fun is_chain :: "hobj list \<Rightarrow> hval \<Rightarrow> nat \<Rightarrow> bool" where
  "is_chain h x 0 = False"
| "is_chain h x (Suc k) =
     (let idv = h_get h x ''id''; at = h_get h x ''attributes''
      in is_ref x \<and> valid_ref h x \<and> h_truthy idv \<and> \<not> is_ref idv
         \<and> is_ref at \<and> valid_ref h at \<and> \<not> h_isArray h at
         \<and> (if k = 0 then own_entries h at = [(''title'', HStr ''leaf'')]
              else (let rel = h_get h at ''next''
                    in map fst (own_entries h at) = [''next'']
                       \<and> is_ref rel \<and> valid_ref h rel \<and> \<not> h_isArray h rel
                       \<and> map fst (own_entries h rel) = [''data'']
                       \<and> is_chain h (h_get h rel ''data'') k)))"

text \<open>
  \<open>v\<close> heads a chain of \<open>k\<close> objects in the modern shape, linked by \<open>next\<close>: each has a
  \<open>documentId\<close> and no \<open>attributes\<close>, and lies at an address from \<open>lo\<close> on.
\<close>

fun modern_chain :: "nat \<Rightarrow> hobj list \<Rightarrow> hval \<Rightarrow> nat \<Rightarrow> bool" where
  "modern_chain lo h v 0 = True"
| "modern_chain lo h v (Suc k) =
     (case v of
        HRef r \<Rightarrow> lo \<le> r \<and> r < length h
          \<and> h_get h v ''documentId'' \<noteq> HUndefined
          \<and> h_get h v ''attributes'' = HUndefined
          \<and> modern_chain lo h (h_get h v ''next'') k
      | _ \<Rightarrow> False)"

section \<open>Properties of format detection\<close>

lemma foldl_detect_step:
  "foldl detect_step (a, b, c) xs =
     (a + length (filter (\<lambda>x. truthy x \<and> typeof_object x \<and> legacy_like x) xs),
      b + length (filter (\<lambda>x. truthy x \<and> typeof_object x \<and> \<not> legacy_like x \<and> modern_like x) xs),
      c + length (filter (\<lambda>x. truthy x \<and> typeof_object x) xs))"
  by (induction xs arbitrary: a b c) (simp_all add: detect_step_def legacy_like_def modern_like_def)

lemma length_filter_pos: "0 < length (filter P xs) \<longleftrightarrow> list_ex P xs"
  by (induction xs) simp_all

text \<open>
  C5 (as the code has it). \<open>detectFormat\<close> is a total function of its input alone: it
  answers \<open>unknown\<close> on a falsy input, and otherwise classifies the non-null object items.
  An item is legacy-like iff its \<open>id\<close> and \<open>attributes\<close> are both defined, and it counts as
  modern only if its \<open>documentId\<close> is defined and it is not legacy-like. Legacy items and no
  modern ones give \<open>v4\<close>, modern ones and no legacy ones give \<open>v5\<close>, both give \<open>mixed\<close>,
  neither gives \<open>unknown\<close>.
\<close>

theorem detectFormat_classification:
  "detectFormat data =
     (if \<not> truthy data then DUnknown
      else let anyL = list_ex legacy_like (classified data);
               anyM = list_ex modern_only (classified data)
           in if anyL \<and> \<not> anyM then DV4
              else if anyM \<and> \<not> anyL then DV5
              else if anyL \<and> anyM then DMixed
              else DUnknown)"
proof -
  let ?ob = "\<lambda>x. truthy x \<and> typeof_object x"
  have L: "list_ex legacy_like (classified data) \<longleftrightarrow>
        0 < length (filter (\<lambda>x. ?ob x \<and> legacy_like x) (as_items data))"
    unfolding length_filter_pos classified_def by (auto simp: list_ex_iff)
  have M: "list_ex modern_only (classified data) \<longleftrightarrow>
        0 < length (filter (\<lambda>x. ?ob x \<and> \<not> legacy_like x \<and> modern_like x) (as_items data))"
    unfolding length_filter_pos classified_def modern_only_def by (auto simp: list_ex_iff)
  have T: "length (filter ?ob (as_items data)) = 0 \<Longrightarrow>
       \<not> list_ex legacy_like (classified data) \<and> \<not> list_ex modern_only (classified data)"
    by (simp add: classified_def)
  show ?thesis
    unfolding detectFormat_def foldl_detect_step Let_def L M using T[unfolded L M]
    by auto
qed

text \<open>The rule at an array of one legacy and one modern item: the answer is \<open>mixed\<close>.\<close>

theorem detectFormat_classification_witness:
  "detectFormat (JArr [JObj [(''id'', JNum 1), (''attributes'', JObj [])],
                       JObj [(''documentId'', JStr ''d'')]]) = DMixed"
  using detectFormat_classification
    [of "JArr [JObj [(''id'', JNum 1), (''attributes'', JObj [])],
               JObj [(''documentId'', JStr ''d'')]]"]
  by (simp add: classified_def legacy_like_def modern_like_def modern_only_def)

text \<open>
  C5 as stated fails on an item that carries \<open>id\<close>, \<open>attributes\<close> and \<open>documentId\<close>: it is
  legacy-like and modern-like, so the stated rule answers \<open>mixed\<close>; the code counts it as
  legacy only and answers \<open>v4\<close>.
\<close>

theorem detectFormat_overlap_counterexample:
  "detectFormat (JObj [(''id'', JNum 1), (''attributes'', JObj []), (''documentId'', JStr ''d'')]) = DV4
   \<and> spec_detect (JObj [(''id'', JNum 1), (''attributes'', JObj []), (''documentId'', JStr ''d'')]) = DMixed"
  by (simp add: detectFormat_def detect_step_def spec_detect_def classified_def
        legacy_like_def modern_like_def)

section \<open>Properties of pagination normalisation\<close>

lemma normalizePagination_example:
  "normalizePagination (JObj [(''page'', JStr ''-5''), (''pageSize'', JStr ''500'')])
   = JObj [(''page'', JNum 1), (''pageSize'', JNum 100), (''pageCount'', JNum 1), (''total'', JNum 0)]"
  by (simp add: normalizePagination_def parseInt_def parseInt_string_def js_or_def
        is_space_def is_digit_def digits_value_def)

lemma math_max_num: "math_max c x = JNum n \<Longrightarrow> c \<le> n"
  by (cases x) auto

lemma math_min_num: "math_min c x = JNum n \<Longrightarrow> n \<le> c \<and> (\<exists>m. x = JNum m \<and> n \<le> m \<and> (n = m \<or> n = c))"
  by (cases x) auto

lemma normalizePagination_numeric_fields_clamped:
  assumes "truthy p"
  shows "js_get (normalizePagination p) ''page'' = JNum n \<Longrightarrow> 1 \<le> n"
    and "js_get (normalizePagination p) ''pageSize'' = JNum n \<Longrightarrow> 1 \<le> n \<and> n \<le> 100"
    and "js_get (normalizePagination p) ''pageCount'' = JNum n \<Longrightarrow> 1 \<le> n"
    and "js_get (normalizePagination p) ''total'' = JNum n \<Longrightarrow> 0 \<le> n"
  using assms
  by (auto simp: normalizePagination_def dest!: math_max_num math_min_num)

text \<open>
  C8. The stated example holds, and a field that \<open>parseInt\<close> reads as an integer is clamped as
  stated (lemmas above). A field with no leading integer is not: for \<open>{page: "abc"}\<close>
  \<open>parseInt\<close> gives \<open>NaN\<close>, \<open>Math.max(1, NaN)\<close> is \<open>NaN\<close>, and the normalised \<open>page\<close> is
  \<open>NaN\<close>, neither an integer nor at least 1.
\<close>

theorem normalizePagination_nan_page:
  "normalizePagination (JObj [(''page'', JStr ''abc'')])
   = JObj [(''page'', JNaN), (''pageSize'', JNum 25), (''pageCount'', JNum 1), (''total'', JNum 0)]"
  by (simp add: normalizePagination_def parseInt_def parseInt_string_def js_or_def
        is_space_def is_digit_def digits_value_def)

section \<open>The fast path and the detailed path of the validator\<close>

lemmas report_simps =
  validateFormat_def getValidationReport_def validation_defaults_def no_options_def
  validateItemWithDetails_def validateRelationsWithDetails_def validateRelationWithDetails_def
  isRelationField_def fail_with_def empty_result_def merge_result_def enumerate_eq_zip

text \<open>
  The detailed path can also accept what the fast path rejects: a legacy item whose relation
  (under \<open>attributes\<close>) wraps an item without \<open>id\<close>. The fast path checks the relations of
  \<open>item.attributes\<close>, the detailed path those of the item itself.
\<close>

lemma report_accepts_fast_rejects:
  "\<not> validateFormat
       (JObj [(''id'', JNum 1),
              (''attributes'', JObj [(''author'', JObj [(''data'', JObj [(''name'', JStr ''a'')])])])])
       V4 no_options
   \<and> isValid (getValidationReport
       (JObj [(''id'', JNum 1),
              (''attributes'', JObj [(''author'', JObj [(''data'', JObj [(''name'', JStr ''a'')])])])])
       V4 no_options)"
  by (simp add: report_simps)

text \<open>
  C4. The two paths disagree on the empty object under the default (non-strict) options and
  format v5: the fast path takes the permissive unknown-shape fallback and answers \<open>true\<close>;
  the detailed path reports the missing \<open>documentId\<close> and answers \<open>isValid = false\<close>.
\<close>

theorem validateFormat_report_disagree:
  "validateFormat (JObj []) V5 no_options
   \<and> \<not> isValid (getValidationReport (JObj []) V5 no_options)"
  by (simp add: report_simps)

section \<open>Properties of the identity registry\<close>

lemma foldl_delete_filter:
  "foldl (\<lambda>al k. AList.delete k al) al ks = filter (\<lambda>kv. fst kv \<notin> set ks) al"
proof (induction ks arbitrary: al)
  case Nil
  then show ?case by simp
next
  case (Cons k ks)
  have "AList.delete k al = filter (\<lambda>kv. fst kv \<noteq> k) al"
    by (induction al) auto
  then show ?case
    using Cons.IH [of "AList.delete k al"] by (simp add: conj_commute)
qed

lemma map_of_filter_keys:
  "map_of (filter (\<lambda>kv. fst kv \<notin> D) al) k = (if k \<in> D then None else map_of al k)"
  by (induction al) auto

lemma distinct_filter_keys:
  "distinct (map fst al) \<Longrightarrow> distinct (map fst (filter P al))"
  by (induction al) auto

lemma map_of_filter_keep:
  "map_of al k = Some v \<Longrightarrow> P (k, v) \<Longrightarrow> map_of (filter P al) k = Some v"
  by (induction al) (auto split: if_splits)

lemma update_fresh: "k \<notin> fst ` set al \<Longrightarrow> AList.update k v al = al @ [(k, v)]"
  by (induction al) auto

lemma update_absent: "map_of al k = None \<Longrightarrow> AList.update k v al = al @ [(k, v)]"
  by (rule update_fresh) (simp add: map_of_eq_None_iff)

lemma distinct_same_key:
  "distinct (map fst al) \<Longrightarrow> a \<in> set al \<Longrightarrow> b \<in> set al \<Longrightarrow> fst a = fst b \<Longrightarrow> a = b"
  by (metis eq_key_imp_eq_value prod.collapse)

lemma foldl_update_fresh:
  "distinct (map f xs) \<Longrightarrow> f ` set xs \<inter> fst ` set base = {} \<Longrightarrow>
     foldl (\<lambda>al x. AList.update (f x) (g x) al) base xs = base @ map (\<lambda>x. (f x, g x)) xs"
proof (induction xs arbitrary: base)
  case Nil
  then show ?case by simp
next
  case (Cons x xs)
  from Cons.prems have fx: "f x \<notin> fst ` set base" by auto
  from Cons.prems have "f ` set xs \<inter> fst ` set (base @ [(f x, g x)]) = {}" by auto
  with Cons.IH [of "base @ [(f x, g x)]"] Cons.prems(1)
  have "foldl (\<lambda>al x. AList.update (f x) (g x) al) (base @ [(f x, g x)]) xs
          = (base @ [(f x, g x)]) @ map (\<lambda>x. (f x, g x)) xs"
    by simp
  with fx show ?case by (simp add: update_fresh)
qed

subsection \<open>What the invariant says\<close>

lemma consistent_forward:
  assumes "consistent reg" and "km \<in> set (mappings reg)"
  shows "fst km = key_of (snd km)"
    and "map_of (reverseMappings reg) (v5DocumentId (snd km)) = Some (snd km)"
  using assms by (auto simp: consistent_def list_all_iff)

lemma consistent_reverse:
  assumes "consistent reg" and "dm \<in> set (reverseMappings reg)"
  shows "fst dm = v5DocumentId (snd dm)"
    and "map_of (mappings reg) (key_of (snd dm)) = Some (snd dm)"
  using assms by (auto simp: consistent_def list_all_iff)

lemma consistent_distinct:
  assumes "consistent reg"
  shows "distinct (map fst (mappings reg))" and "distinct (map fst (reverseMappings reg))"
  using assms by (simp_all add: consistent_def)

text \<open>
  In a consistent registry every record answers both lookups: \<open>mapV4ToV5\<close> of its pair
  returns its \<open>v5DocumentId\<close> and leaves the registry as it is, and \<open>mapV5ToV4\<close> of that
  \<open>v5DocumentId\<close> under its \<open>contentType\<close> returns its \<open>v4Id\<close>.
\<close>

lemma consistent_lookups:
  assumes c: "consistent reg" and km: "km \<in> set (mappings reg)"
  shows "mapV4ToV5 rd (v4Id (snd km)) (contentType (snd km)) reg = (v5DocumentId (snd km), reg)"
    and "mapV5ToV4 (JStr (v5DocumentId (snd km))) (contentType (snd km)) reg = Inr (v4Id (snd km))"
proof -
  from c km have "map_of (mappings reg) (fst km) = Some (snd km)"
    by (simp add: consistent_def)
  with consistent_forward(1) [OF c km]
  have "map_of (mappings reg) (mapping_key (contentType (snd km)) (v4Id (snd km))) = Some (snd km)"
    by (simp add: key_of_def)
  then show "mapV4ToV5 rd (v4Id (snd km)) (contentType (snd km)) reg = (v5DocumentId (snd km), reg)"
    by (simp add: mapV4ToV5_def)
  from consistent_forward(2) [OF c km]
  show "mapV5ToV4 (JStr (v5DocumentId (snd km))) (contentType (snd km)) reg = Inr (v4Id (snd km))"
    by (simp add: mapV5ToV4_def)
qed

text \<open>The records of the two indices are the same.\<close>

lemma consistent_same_records:
  assumes c: "consistent reg"
  shows "set (reverseMappings reg) = reverse_entry ` set (mappings reg)"
proof (intro set_eqI iffI)
  fix dm assume dm: "dm \<in> set (reverseMappings reg)"
  from consistent_reverse(2) [OF c dm]
  have "(key_of (snd dm), snd dm) \<in> set (mappings reg)"
    by (rule map_of_SomeD)
  then have "reverse_entry (key_of (snd dm), snd dm) \<in> reverse_entry ` set (mappings reg)"
    by (rule imageI)
  with consistent_reverse(1) [OF c dm] show "dm \<in> reverse_entry ` set (mappings reg)"
    by (simp add: reverse_entry_def) (metis prod.collapse)
next
  fix dm assume "dm \<in> reverse_entry ` set (mappings reg)"
  then obtain km where km: "km \<in> set (mappings reg)" and dm: "dm = reverse_entry km"
    by blast
  from consistent_forward(2) [OF c km] show "dm \<in> set (reverseMappings reg)"
    unfolding dm reverse_entry_def by (rule map_of_SomeD)
qed

subsection \<open>The operations keep the invariant\<close>

lemma consistent_clearMappings: "consistent (clearMappings reg)"
  by (simp add: consistent_def clearMappings_def)

text \<open>
  \<open>clearMappingsForContentType\<close> removes from both indices exactly the records of the
  content type.
\<close>

lemma clearMappingsForContentType_forward:
  assumes c: "consistent reg"
  shows "mappings (clearMappingsForContentType T reg)
           = filter (\<lambda>km. contentType (snd km) \<noteq> T) (mappings reg)"
proof -
  let ?sel = "filter (\<lambda>km. contentType (snd km) = T) (mappings reg)"
  have "(fst km \<notin> set (map fst ?sel)) = (contentType (snd km) \<noteq> T)"
    if km: "km \<in> set (mappings reg)" for km
  proof
    assume "fst km \<notin> set (map fst ?sel)"
    with km show "contentType (snd km) \<noteq> T" by force
  next
    assume ne: "contentType (snd km) \<noteq> T"
    show "fst km \<notin> set (map fst ?sel)"
    proof
      assume "fst km \<in> set (map fst ?sel)"
      then obtain km' where km': "km' \<in> set (mappings reg)" "contentType (snd km') = T"
        "fst km' = fst km" by auto
      from distinct_same_key [OF consistent_distinct(1) [OF c] km'(1) km km'(3)] km'(2) ne
      show False by simp
    qed
  qed
  then have "filter (\<lambda>kv. fst kv \<notin> set (map fst ?sel)) (mappings reg)
               = filter (\<lambda>km. contentType (snd km) \<noteq> T) (mappings reg)"
    by (intro filter_cong refl)
  then show ?thesis
    by (simp add: clearMappingsForContentType_def Let_def foldl_delete_filter)
qed

lemma clearMappingsForContentType_reverse:
  assumes c: "consistent reg"
  shows "reverseMappings (clearMappingsForContentType T reg)
           = filter (\<lambda>dm. contentType (snd dm) \<noteq> T) (reverseMappings reg)"
proof -
  let ?sel = "filter (\<lambda>km. contentType (snd km) = T) (mappings reg)"
  let ?D = "set (map (\<lambda>km. v5DocumentId (snd km)) ?sel)"
  have "(fst dm \<notin> ?D) = (contentType (snd dm) \<noteq> T)"
    if dm: "dm \<in> set (reverseMappings reg)" for dm
  proof
    assume notD: "fst dm \<notin> ?D"
    show "contentType (snd dm) \<noteq> T"
    proof
      assume T: "contentType (snd dm) = T"
      from consistent_reverse(2) [OF c dm]
      have "(key_of (snd dm), snd dm) \<in> set (mappings reg)" by (rule map_of_SomeD)
      with T have "(key_of (snd dm), snd dm) \<in> set ?sel" by simp
      then have "v5DocumentId (snd (key_of (snd dm), snd dm)) \<in> ?D"
        unfolding set_map by (rule imageI)
      with consistent_reverse(1) [OF c dm] notD show False by simp
    qed
  next
    assume ne: "contentType (snd dm) \<noteq> T"
    show "fst dm \<notin> ?D"
    proof
      assume "fst dm \<in> ?D"
      then obtain km where km: "km \<in> set (mappings reg)" "contentType (snd km) = T"
        "v5DocumentId (snd km) = fst dm" by auto
      from consistent_forward(2) [OF c km(1)] km(3)
      have "map_of (reverseMappings reg) (fst dm) = Some (snd km)" by simp
      moreover from consistent_distinct(2) [OF c] dm
      have "map_of (reverseMappings reg) (fst dm) = Some (snd dm)" by simp
      ultimately show False using km(2) ne by simp
    qed
  qed
  then have "filter (\<lambda>kv. fst kv \<notin> ?D) (reverseMappings reg)
               = filter (\<lambda>dm. contentType (snd dm) \<noteq> T) (reverseMappings reg)"
    by (intro filter_cong refl)
  then show ?thesis
    by (simp add: clearMappingsForContentType_def Let_def foldl_delete_filter)
qed

lemma consistent_clearMappingsForContentType:
  assumes c: "consistent reg"
  shows "consistent (clearMappingsForContentType T reg)"
proof -
  let ?reg' = "clearMappingsForContentType T reg"
  let ?keep = "\<lambda>km :: string \<times> IdMapping. contentType (snd km) \<noteq> T"
  note fwd = clearMappingsForContentType_forward [OF c, of T]
  note rev = clearMappingsForContentType_reverse [OF c, of T]
  have f: "fst km = key_of (snd km)
      \<and> map_of (reverseMappings ?reg') (v5DocumentId (snd km)) = Some (snd km)"
    if "km \<in> set (mappings ?reg')" for km
  proof -
    from that have km: "km \<in> set (mappings reg)" and keep: "?keep km"
      by (simp_all add: fwd)
    from consistent_forward(2) [OF c km] keep
    have "map_of (filter ?keep (reverseMappings reg)) (v5DocumentId (snd km)) = Some (snd km)"
      by (intro map_of_filter_keep) simp_all
    with consistent_forward(1) [OF c km] show ?thesis by (simp add: rev)
  qed
  have r: "fst dm = v5DocumentId (snd dm)
      \<and> map_of (mappings ?reg') (key_of (snd dm)) = Some (snd dm)"
    if "dm \<in> set (reverseMappings ?reg')" for dm
  proof -
    from that have dm: "dm \<in> set (reverseMappings reg)" and keep: "?keep dm"
      by (simp_all add: rev)
    from consistent_reverse(2) [OF c dm] keep
    have "map_of (filter ?keep (mappings reg)) (key_of (snd dm)) = Some (snd dm)"
      by (intro map_of_filter_keep) simp_all
    with consistent_reverse(1) [OF c dm] show ?thesis by (simp add: fwd)
  qed
  have "distinct (map fst (mappings ?reg'))" "distinct (map fst (reverseMappings ?reg'))"
    using consistent_distinct [OF c] by (simp_all add: fwd rev distinct_filter_keys)
  with f r show ?thesis
    unfolding consistent_def list_all_iff by blast
qed

text \<open>\<open>mapV4ToV5\<close> on a hit: the registered identifier, and the registry as it was.\<close>

lemma mapV4ToV5_hit:
  "map_of (mappings reg) (mapping_key T v) = Some m \<Longrightarrow>
     mapV4ToV5 rd v T reg = (v5DocumentId m, reg)"
  by (simp add: mapV4ToV5_def)

text \<open>
  \<open>mapV4ToV5\<close> on a miss, when the synthesized identifier is new to the reverse index: the
  new record is filed at the end of both indices.
\<close>

lemma mapV4ToV5_miss:
  assumes "map_of (mappings reg) (mapping_key T v) = None" and "fresh_id rd v T reg"
  shows "mapV4ToV5 rd v T reg =
     (generateDocumentId rd v T,
      reg \<lparr> mappings := mappings reg @ [(mapping_key T v, new_record rd v T)],
            reverseMappings :=
              reverseMappings reg @ [(generateDocumentId rd v T, new_record rd v T)] \<rparr>)"
  using assms
  by (simp add: mapV4ToV5_def Let_def fresh_id_def update_absent new_record_def)

lemma consistent_mapV4ToV5_miss:
  assumes c: "consistent reg"
    and miss: "map_of (mappings reg) (mapping_key T v) = None" and fresh: "fresh_id rd v T reg"
  shows "consistent (snd (mapV4ToV5 rd v T reg))"
proof -
  let ?d = "generateDocumentId rd v T"
  let ?k = "mapping_key T v"
  let ?new = "new_record rd v T"
  let ?reg' = "snd (mapV4ToV5 rd v T reg)"
  have fwd: "mappings ?reg' = mappings reg @ [(?k, ?new)]"
    and rev: "reverseMappings ?reg' = reverseMappings reg @ [(?d, ?new)]"
    by (simp_all add: mapV4ToV5_miss [OF miss fresh])
  from fresh have free: "map_of (reverseMappings reg) ?d = None"
    by (simp add: fresh_id_def)
  have kn: "key_of ?new = ?k" and dn: "v5DocumentId ?new = ?d"
    by (simp_all add: key_of_def new_record_def)
  have f: "fst km = key_of (snd km)
      \<and> map_of (reverseMappings ?reg') (v5DocumentId (snd km)) = Some (snd km)"
    if "km \<in> set (mappings ?reg')" for km
  proof -
    from that fwd consider "km = (?k, ?new)" | "km \<in> set (mappings reg)" by auto
    then show ?thesis
    proof cases
      case 1
      then show ?thesis by (simp add: kn dn rev map_add_def free)
    next
      case 2
      from consistent_forward [OF c 2] show ?thesis by (simp add: rev map_add_def)
    qed
  qed
  have r: "fst dm = v5DocumentId (snd dm)
      \<and> map_of (mappings ?reg') (key_of (snd dm)) = Some (snd dm)"
    if "dm \<in> set (reverseMappings ?reg')" for dm
  proof -
    from that rev consider "dm = (?d, ?new)" | "dm \<in> set (reverseMappings reg)" by auto
    then show ?thesis
    proof cases
      case 1
      then show ?thesis by (simp add: kn dn fwd map_add_def miss)
    next
      case 2
      from consistent_reverse [OF c 2] show ?thesis by (simp add: fwd map_add_def)
    qed
  qed
  from miss have "?k \<notin> fst ` set (mappings reg)" by (simp add: map_of_eq_None_iff)
  moreover from free have "?d \<notin> fst ` set (reverseMappings reg)" by (simp add: map_of_eq_None_iff)
  ultimately have "distinct (map fst (mappings ?reg'))" "distinct (map fst (reverseMappings ?reg'))"
    using consistent_distinct [OF c] by (simp_all add: fwd rev)
  with f r show ?thesis
    unfolding consistent_def list_all_iff by blast
qed

text \<open>\<open>importMappings\<close>: both indices are rebuilt from the imported records alone.\<close>

lemma foldl_import_mappings:
  "mappings (foldl import_item reg items)
     = foldl (\<lambda>al km. AList.update (fst km) (snd km) al) (mappings reg) items"
  by (induction items arbitrary: reg) (simp_all add: import_item_def split: prod.splits)

lemma foldl_import_reverse:
  "reverseMappings (foldl import_item reg items)
     = foldl (\<lambda>al km. AList.update (v5DocumentId (snd km)) (snd km) al) (reverseMappings reg) items"
  by (induction items arbitrary: reg) (simp_all add: import_item_def split: prod.splits)

lemma set_update_subset: "set (AList.update k v al) \<subseteq> insert (k, v) (set al)"
  by (induction al) auto

lemma foldl_update_distinct:
  "distinct (map fst al) \<Longrightarrow> distinct (map fst (foldl (\<lambda>al x. AList.update (f x) (g x) al) al xs))"
  by (induction xs arbitrary: al) (simp_all add: distinct_update)

lemma foldl_update_set:
  "kv \<in> set (foldl (\<lambda>al x. AList.update (f x) (g x) al) al xs)
     \<Longrightarrow> kv \<in> set al \<or> (\<exists>x \<in> set xs. kv = (f x, g x))"
proof (induction xs arbitrary: al)
  case Nil then show ?case by simp
next
  case (Cons x xs)
  from Cons.IH [OF Cons.prems [simplified]] set_update_subset [of "f x" "g x" al]
  show ?case by auto
qed

lemma foldl_update_lookup:
  "x \<in> set xs \<Longrightarrow>
     \<exists>y \<in> set xs. f y = f x \<and> map_of (foldl (\<lambda>al x. AList.update (f x) (g x) al) al xs) (f x) = Some (g y)"
proof (induction xs arbitrary: al rule: rev_induct)
  case Nil then show ?case by simp
next
  case (snoc z zs)
  show ?case
  proof (cases "f z = f x")
    case True
    then show ?thesis by (auto simp: update_conv')
  next
    case False
    with snoc.prems have "x \<in> set zs" by auto
    from snoc.IH [OF this, of al] False show ?thesis by (auto simp: update_conv')
  qed
qed

text \<open>
  When the items that share a key \<open>f x\<close> are equal, the map built from the empty one holds
  exactly the entries of the items.
\<close>

lemma foldl_update_entries:
  assumes "\<And>x y. x \<in> set xs \<Longrightarrow> y \<in> set xs \<Longrightarrow> f x = f y \<Longrightarrow> g x = g y"
  shows "set (foldl (\<lambda>al x. AList.update (f x) (g x) al) [] xs) = (\<lambda>x. (f x, g x)) ` set xs"
proof (intro set_eqI iffI)
  fix kv assume "kv \<in> set (foldl (\<lambda>al x. AList.update (f x) (g x) al) [] xs)"
  from foldl_update_set [OF this] show "kv \<in> (\<lambda>x. (f x, g x)) ` set xs" by auto
next
  fix kv assume "kv \<in> (\<lambda>x. (f x, g x)) ` set xs"
  then obtain x where x: "x \<in> set xs" and kv: "kv = (f x, g x)" by blast
  from foldl_update_lookup [OF x, of f g "[]"] obtain y where
    y: "y \<in> set xs" "f y = f x"
      "map_of (foldl (\<lambda>al x. AList.update (f x) (g x) al) [] xs) (f x) = Some (g y)"
    by blast
  from assms [OF y(1) x y(2)] y(3)
  have "map_of (foldl (\<lambda>al x. AList.update (f x) (g x) al) [] xs) (f x) = Some (g x)" by simp
  then show "kv \<in> set (foldl (\<lambda>al x. AList.update (f x) (g x) al) [] xs)"
    unfolding kv by (rule map_of_SomeD)
qed

lemma import_indices:
  assumes "faithful_records items"
  shows "set (mappings (foldl import_item (clearMappings reg) items)) = set items"
    and "set (reverseMappings (foldl import_item (clearMappings reg) items))
           = reverse_entry ` set items"
proof -
  from assms have same: "a = b"
    if "a \<in> set items" "b \<in> set items"
       "fst a = fst b \<or> v5DocumentId (snd a) = v5DocumentId (snd b)" for a b
    using that unfolding faithful_records_def list_all_iff by blast
  have "set (foldl (\<lambda>al km. AList.update (fst km) (snd km) al) [] items)
          = (\<lambda>km. (fst km, snd km)) ` set items"
    by (rule foldl_update_entries) (use same in blast)
  then show "set (mappings (foldl import_item (clearMappings reg) items)) = set items"
    by (simp add: foldl_import_mappings clearMappings_def)
  have "set (foldl (\<lambda>al km. AList.update (v5DocumentId (snd km)) (snd km) al) [] items)
          = (\<lambda>km. (v5DocumentId (snd km), snd km)) ` set items"
    by (rule foldl_update_entries) (use same in blast)
  then show "set (reverseMappings (foldl import_item (clearMappings reg) items))
           = reverse_entry ` set items"
    by (simp add: foldl_import_reverse clearMappings_def reverse_entry_def [abs_def])
qed

lemma consistent_import:
  assumes ok: "faithful_records items"
  shows "consistent (foldl import_item (clearMappings reg) items)"
proof -
  let ?r = "foldl import_item (clearMappings reg) items"
  note sets = import_indices [OF ok, of reg]
  have d1: "distinct (map fst (mappings ?r))"
    unfolding foldl_import_mappings by (rule foldl_update_distinct) (simp add: clearMappings_def)
  have d2: "distinct (map fst (reverseMappings ?r))"
    unfolding foldl_import_reverse by (rule foldl_update_distinct) (simp add: clearMappings_def)
  from ok have key: "fst a = key_of (snd a)" if "a \<in> set items" for a
    using that unfolding faithful_records_def list_all_iff by blast
  have f: "fst km = key_of (snd km)
      \<and> map_of (reverseMappings ?r) (v5DocumentId (snd km)) = Some (snd km)"
    if "km \<in> set (mappings ?r)" for km
  proof -
    from that have km: "km \<in> set items" by (simp add: sets)
    then have "reverse_entry km \<in> set (reverseMappings ?r)" by (simp add: sets)
    with d2 have "map_of (reverseMappings ?r) (v5DocumentId (snd km)) = Some (snd km)"
      by (simp add: reverse_entry_def)
    with key [OF km] show ?thesis by simp
  qed
  have r: "fst dm = v5DocumentId (snd dm)
      \<and> map_of (mappings ?r) (key_of (snd dm)) = Some (snd dm)"
    if "dm \<in> set (reverseMappings ?r)" for dm
  proof -
    from that obtain km where km: "km \<in> set items" and dm: "dm = reverse_entry km"
      by (auto simp: sets)
    from km have "(fst km, snd km) \<in> set (mappings ?r)" by (simp add: sets)
    with d1 have "map_of (mappings ?r) (fst km) = Some (snd km)" by simp
    with key [OF km] show ?thesis by (simp add: dm reverse_entry_def)
  qed
  from d1 d2 f r show ?thesis
    unfolding consistent_def list_all_iff by blast
qed

text \<open>The export of a consistent registry can be imported again.\<close>

lemma consistent_faithful_records:
  assumes c: "consistent reg"
  shows "faithful_records (exportMappings reg)"
proof -
  have same: "a = b"
    if a: "a \<in> set (mappings reg)" and b: "b \<in> set (mappings reg)"
      and sh: "fst a = fst b \<or> v5DocumentId (snd a) = v5DocumentId (snd b)" for a b
  proof -
    have "fst a = fst b"
    proof (cases "fst a = fst b")
      case True
      then show ?thesis .
    next
      case False
      with sh have d: "v5DocumentId (snd a) = v5DocumentId (snd b)" by blast
      have "map_of (reverseMappings reg) (v5DocumentId (snd a)) = Some (snd a)"
        using c a by (rule consistent_forward(2))
      moreover have "map_of (reverseMappings reg) (v5DocumentId (snd a)) = Some (snd b)"
        unfolding d using c b by (rule consistent_forward(2))
      ultimately have "Some (snd a) = Some (snd b)" by (rule trans [OF sym])
      then have "snd a = snd b" by (simp only: option.inject)
      then have "key_of (snd a) = key_of (snd b)" by (rule arg_cong)
      then show ?thesis
        unfolding consistent_forward(1) [OF c a] consistent_forward(1) [OF c b] .
    qed
    with consistent_distinct(1) [OF c] a b show ?thesis by (rule distinct_same_key)
  qed
  have key: "fst a = key_of (snd a)" if "a \<in> set (mappings reg)" for a
    using c that by (rule consistent_forward(1))
  show ?thesis
    unfolding faithful_records_def exportMappings_def list_all_iff
  proof (intro ballI conjI impI)
    fix a assume "a \<in> set (mappings reg)"
    then show "fst a = key_of (snd a)" by (rule key)
  next
    fix a b
    assume "a \<in> set (mappings reg)" "b \<in> set (mappings reg)"
      "fst a = fst b \<or> v5DocumentId (snd a) = v5DocumentId (snd b)"
    then show "a = b" by (rule same)
  qed
qed

lemma import_export_forward:
  assumes c: "consistent reg"
  shows "mappings (foldl import_item (clearMappings other) (exportMappings reg)) = mappings reg"
  using foldl_update_fresh [of fst "mappings reg" "[]" snd] consistent_distinct(1) [OF c]
  by (simp add: foldl_import_mappings clearMappings_def exportMappings_def)

lemma mapV5ToV4_after_mapV4ToV5:
  assumes "key_faithful reg T v"
  shows "mapV5ToV4 (JStr (fst (mapV4ToV5 rd v T reg))) T (snd (mapV4ToV5 rd v T reg)) = Inr v"
proof (cases "map_of (mappings reg) (mapping_key T v)")
  case None
  then show ?thesis
    by (simp add: mapV4ToV5_def mapV5ToV4_def Let_def update_conv')
next
  case (Some m)
  with assms have "v4Id m = v" "contentType m = T" "resolves reg m"
    by (simp_all add: key_faithful_def)
  with Some show ?thesis
    by (auto simp: mapV4ToV5_def mapV5ToV4_def Let_def resolves_def split: option.splits)
qed

text \<open>
  C6 (as the code has it). When the composite key of \<open>(T, v)\<close> is free in the forward index,
  or holds a record of exactly this \<open>v\<close> and \<open>T\<close> that the reverse index resolves, the
  identifier returned by \<open>mapV4ToV5(v, T)\<close> maps back to \<open>v\<close> under \<open>mapV5ToV4(_, T)\<close>.
\<close>

theorem mapV5ToV4_inverts_mapV4ToV5:
  assumes "key_faithful reg T v"
  shows "mapV5ToV4 (JStr (fst (mapV4ToV5 rd v T reg))) T (snd (mapV4ToV5 rd v T reg)) = Inr v"
  using assms by (rule mapV5ToV4_after_mapV4ToV5)

text \<open>On the empty registry the numeric identifier 7 comes back as the number 7.\<close>

theorem mapV5ToV4_inverts_mapV4ToV5_witness:
  "key_faithful empty_registry ''article'' (JNum 7)
   \<and> mapV5ToV4 (JStr (fst (mapV4ToV5 example_reading (JNum 7) ''article'' empty_registry)))
        ''article'' (snd (mapV4ToV5 example_reading (JNum 7) ''article'' empty_registry))
      = Inr (JNum 7)"
proof -
  have h: "key_faithful empty_registry ''article'' (JNum 7)"
    by (simp add: key_faithful_def empty_registry_def)
  from h mapV5ToV4_inverts_mapV4ToV5 [OF h, of example_reading] show ?thesis by simp
qed

text \<open>
  C6 as stated fails when the key is taken by another identifier: the composite key is a
  string, so the string \<open>"1"\<close> and the number \<open>1\<close> share the key \<open>article:1\<close>. After
  \<open>mapV4ToV5("1", "article")\<close>, the round trip for the number \<open>1\<close> returns the string \<open>"1"\<close>.
\<close>

theorem mapV5ToV4_key_clash_counterexample:
  "mapV5ToV4
     (JStr (fst (mapV4ToV5 example_reading (JNum 1) ''article'' registry_with_string_id)))
     ''article''
     (snd (mapV4ToV5 example_reading (JNum 1) ''article'' registry_with_string_id))
   = Inr (JStr ''1'')"
  by code_simp

text \<open>
  C7 (as the code has it). On a consistent registry:
  \<^item> \<open>clearMappings\<close> empties both indices;
  \<^item> \<open>clearMappingsForContentType\<close> removes from both indices the records of that content
    type and no others;
  \<^item> \<open>mapV4ToV5\<close> on a hit returns the registered identifier and leaves the registry as it
    is; on a miss it files the new record at the end of both indices, provided the
    identifier it synthesizes is not yet a key of the reverse index;
  \<^item> \<open>importMappings\<close> replaces the registry: both indices are rebuilt from the imported
    records and hold nothing else, provided each record is filed under its own composite key
    and the records that share a key or a \<open>v5DocumentId\<close> are equal;
  \<^item> the export of the registry is such a list of records, and importing it gives the forward
    index back as it was and a reverse index with the same entries;

  and in every case the registry that results is consistent.
\<close>

theorem registry_invariant_preserved:
  assumes "consistent reg"
  shows "(mappings (clearMappings reg) = [] \<and> reverseMappings (clearMappings reg) = []
          \<and> consistent (clearMappings reg))
    \<and> (mappings (clearMappingsForContentType T reg)
           = filter (\<lambda>km. contentType (snd km) \<noteq> T) (mappings reg)
        \<and> reverseMappings (clearMappingsForContentType T reg)
           = filter (\<lambda>dm. contentType (snd dm) \<noteq> T) (reverseMappings reg)
        \<and> consistent (clearMappingsForContentType T reg))
    \<and> (\<forall>m. map_of (mappings reg) (mapping_key T v) = Some m \<longrightarrow>
           mapV4ToV5 rd v T reg = (v5DocumentId m, reg))
    \<and> (map_of (mappings reg) (mapping_key T v) = None \<and> fresh_id rd v T reg \<longrightarrow>
           mapV4ToV5 rd v T reg =
             (generateDocumentId rd v T,
              reg \<lparr> mappings := mappings reg @ [(mapping_key T v, new_record rd v T)],
                    reverseMappings :=
                      reverseMappings reg @ [(generateDocumentId rd v T, new_record rd v T)] \<rparr>)
           \<and> consistent (snd (mapV4ToV5 rd v T reg)))
    \<and> (faithful_records items \<longrightarrow>
           (\<exists>reg'. importMappings (Inr items) reg = Inr reg'
              \<and> set (mappings reg') = set items
              \<and> set (reverseMappings reg') = reverse_entry ` set items
              \<and> consistent reg'))
    \<and> faithful_records (exportMappings reg)
    \<and> (\<exists>reg'. importMappings (Inr (exportMappings reg)) other = Inr reg'
              \<and> mappings reg' = mappings reg
              \<and> set (reverseMappings reg') = set (reverseMappings reg)
              \<and> consistent reg')"
proof -
  have clear: "mappings (clearMappings reg) = [] \<and> reverseMappings (clearMappings reg) = []
      \<and> consistent (clearMappings reg)"
    by (simp add: consistent_clearMappings) (simp add: clearMappings_def)
  have purge: "mappings (clearMappingsForContentType T reg)
           = filter (\<lambda>km. contentType (snd km) \<noteq> T) (mappings reg)
      \<and> reverseMappings (clearMappingsForContentType T reg)
           = filter (\<lambda>dm. contentType (snd dm) \<noteq> T) (reverseMappings reg)
      \<and> consistent (clearMappingsForContentType T reg)"
    using assms
    by (intro conjI clearMappingsForContentType_forward clearMappingsForContentType_reverse
          consistent_clearMappingsForContentType)
  have hit: "\<forall>m. map_of (mappings reg) (mapping_key T v) = Some m \<longrightarrow>
           mapV4ToV5 rd v T reg = (v5DocumentId m, reg)"
    by (simp add: mapV4ToV5_hit)
  have miss: "map_of (mappings reg) (mapping_key T v) = None \<and> fresh_id rd v T reg \<longrightarrow>
           mapV4ToV5 rd v T reg =
             (generateDocumentId rd v T,
              reg \<lparr> mappings := mappings reg @ [(mapping_key T v, new_record rd v T)],
                    reverseMappings :=
                      reverseMappings reg @ [(generateDocumentId rd v T, new_record rd v T)] \<rparr>)
           \<and> consistent (snd (mapV4ToV5 rd v T reg))"
    using assms by (intro impI conjI mapV4ToV5_miss consistent_mapV4ToV5_miss) simp_all
  have imp: "faithful_records items \<longrightarrow>
           (\<exists>reg'. importMappings (Inr items) reg = Inr reg'
              \<and> set (mappings reg') = set items
              \<and> set (reverseMappings reg') = reverse_entry ` set items
              \<and> consistent reg')"
    by (simp add: importMappings_def import_indices consistent_import)
  have ok: "faithful_records (exportMappings reg)"
    using assms by (rule consistent_faithful_records)
  have "set (reverseMappings (foldl import_item (clearMappings other) (exportMappings reg)))
          = set (reverseMappings reg)"
    using import_indices(2) [OF ok, of other] consistent_same_records [OF assms]
    by (simp add: exportMappings_def)
  with ok assms have exp: "\<exists>reg'. importMappings (Inr (exportMappings reg)) other = Inr reg'
              \<and> mappings reg' = mappings reg
              \<and> set (reverseMappings reg') = set (reverseMappings reg)
              \<and> consistent reg'"
    by (simp add: importMappings_def import_export_forward consistent_import)
  from clear purge hit miss imp ok exp show ?thesis
    by (intro conjI) blast+
qed

text \<open>
  The registry that holds the one record of \<open>mapV4ToV5("1", "article")\<close> is consistent. A miss
  on the number 2 files a second record and the registry stays consistent; clearing the
  content type \<open>article\<close> empties both indices; the export can be imported again.
\<close>

theorem registry_invariant_preserved_witness:
  "consistent registry_with_string_id
   \<and> map_of (mappings registry_with_string_id) (mapping_key ''article'' (JNum 2)) = None
   \<and> fresh_id example_reading (JNum 2) ''article'' registry_with_string_id
   \<and> consistent (snd (mapV4ToV5 example_reading (JNum 2) ''article'' registry_with_string_id))
   \<and> mappings (clearMappingsForContentType ''article'' registry_with_string_id) = []
   \<and> reverseMappings (clearMappingsForContentType ''article'' registry_with_string_id) = []
   \<and> faithful_records (exportMappings registry_with_string_id)
   \<and> (\<exists>reg'. importMappings (Inr (exportMappings registry_with_string_id)) empty_registry
                = Inr reg'
          \<and> mappings reg' = mappings registry_with_string_id \<and> consistent reg')"
proof -
  have c: "consistent registry_with_string_id" by code_simp
  have m: "map_of (mappings registry_with_string_id) (mapping_key ''article'' (JNum 2)) = None"
    by code_simp
  have f: "fresh_id example_reading (JNum 2) ''article'' registry_with_string_id" by code_simp
  have e: "filter (\<lambda>km. contentType (snd km) \<noteq> ''article'') (mappings registry_with_string_id) = []"
    "filter (\<lambda>dm. contentType (snd dm) \<noteq> ''article'') (reverseMappings registry_with_string_id) = []"
    by code_simp+
  note th = registry_invariant_preserved
    [OF c, of "''article''" "JNum 2" example_reading "[]" empty_registry]
  from th [THEN conjunct2, THEN conjunct1] e
  have purge: "mappings (clearMappingsForContentType ''article'' registry_with_string_id) = []"
    "reverseMappings (clearMappingsForContentType ''article'' registry_with_string_id) = []"
    by simp_all
  from th [THEN conjunct2, THEN conjunct2, THEN conjunct2, THEN conjunct1] m f
  have miss: "consistent (snd (mapV4ToV5 example_reading (JNum 2) ''article'' registry_with_string_id))"
    by blast
  from th [THEN conjunct2, THEN conjunct2, THEN conjunct2, THEN conjunct2, THEN conjunct2]
  have exp: "faithful_records (exportMappings registry_with_string_id)"
    "\<exists>reg'. importMappings (Inr (exportMappings registry_with_string_id)) empty_registry
                = Inr reg'
          \<and> mappings reg' = mappings registry_with_string_id \<and> consistent reg'"
    by blast+
  from c m f miss purge exp show ?thesis
    by (intro conjI)
qed

text \<open>
  C7 as stated fails for \<open>importMappings\<close>, which takes its records as they come: two records
  under different keys that share a \<open>v5DocumentId\<close> leave the reverse index with the later one
  only, so the earlier record of the forward index is not found again.
\<close>

theorem importMappings_clash_counterexample:
  "consistent empty_registry
   \<and> importMappings (Inr clashing_import) empty_registry
       = Inr (foldl import_item (clearMappings empty_registry) clashing_import)
   \<and> \<not> consistent (foldl import_item (clearMappings empty_registry) clashing_import)
   \<and> mapV5ToV4
        (JStr (fst (mapV4ToV5 example_reading (JNum 1) ''article''
                      (foldl import_item (clearMappings empty_registry) clashing_import))))
        ''article'' (foldl import_item (clearMappings empty_registry) clashing_import)
      = Inr (JNum 2)"
  by code_simp

section \<open>Properties of the transformer\<close>

lemma and_then_None [simp]: "and_then None f = None"
  by (simp add: and_then_def)

lemma and_then_Some_Inr [simp]: "and_then (Some (Inr v, s)) f = f v s"
  by (simp add: and_then_def)

lemma and_then_Some_Inl [simp]: "and_then (Some (Inl e, s)) f = Some (Inl e, s)"
  by (simp add: and_then_def)

lemma try_finally_None [simp]: "try_finally None c = None"
  by (simp add: try_finally_def)

lemma try_finally_Some [simp]: "try_finally (Some (r, s)) c = Some (r, c s)"
  by (simp add: try_finally_def)

lemma alloc_eq:
  "alloc obj s = Some (Inr (HRef (length (heap s))), s \<lparr> heap := heap s @ [obj] \<rparr>)"
  by (simp add: alloc_def ret_def)

lemma call_mapV4ToV5_prim:
  "to_js v = Some j \<Longrightarrow>
     \<exists>d s1. call_mapV4ToV5 v ct s = Some (Inr d, s1) \<and> heap s1 = heap s"
  by (auto simp: call_mapV4ToV5_def ret_def split: prod.splits)

subsection \<open>The guards and the relation path\<close>

lemma holds_cycle_append: "holds_cycle h \<Longrightarrow> holds_cycle (h @ [x])"
  by (auto simp: holds_cycle_def cell_def nth_append)

lemma for_each_key_None:
  assumes "\<forall>k' \<in> set before. \<not> is_ref (h_get (heap s) obj k')"
    and "is_ref (h_get (heap s) obj k)"
    and "f (h_get (heap s) obj k) s = None"
  shows "for_each_key f obj (before @ k # after) s = None"
  using assms by (induction before) (simp_all add: Let_def)

text \<open>
  The relation \<open>{ data: a }\<close> at address 2 leads back to the item at address 0 through
  \<open>transformRelationData\<close>, which calls \<open>transformV4ItemToV5\<close> directly.
\<close>

lemma relation_back_diverges:
  assumes "holds_cycle (heap s)"
    and "\<And>k opts s'. k < n \<Longrightarrow> holds_cycle (heap s') \<Longrightarrow>
           transformV4ItemToV5 k (HRef 0) opts s' = None"
  shows "transformNestedData n (HRef 2) V4 V5 opts s = None"
proof (cases n)
  case 0 then show ?thesis by simp
next
  case (Suc m)
  show ?thesis
  proof (cases m)
    case 0
    with Suc assms(1) show ?thesis
      by (simp add: transform_Suc isRelationData_def h_get_def holds_cycle_def)
  next
    case (Suc k)
    with \<open>n = Suc m\<close> have "k < n" by simp
    from assms(2) [OF this assms(1)] Suc \<open>n = Suc m\<close> assms(1) show ?thesis
      by (simp add: transform_Suc isRelationData_def h_get_def holds_cycle_def h_isArray_def)
  qed
qed

lemma self_relation_diverges:
  "holds_cycle (heap s) \<Longrightarrow> transformV4ItemToV5 n (HRef 0) opts s = None"
proof (induction n arbitrary: opts s rule: less_induct)
  case (less n)
  show ?case
  proof (cases n)
    case 0 then show ?thesis by simp
  next
    case (Suc m)
    obtain d s1 where d: "call_mapV4ToV5 (HNum 1) (ctype opts) s = Some (Inr d, s1)"
      and h1: "heap s1 = heap s"
      using call_mapV4ToV5_prim [of "HNum 1" "JNum 1" "ctype opts" s] by auto
    let ?spread = "[(''documentId'', HStr d), (''self'', HRef 2)]"
    define entries where
      "entries = (if preserveOriginalId opts then AList.update ''id'' (HNum 1) ?spread else ?spread)"
    define s2 where "s2 = s1 \<lparr> heap := heap s1 @ [HObject entries] \<rparr>"
    let ?f = "\<lambda>v. transformNestedData m v V4 V5 (opts \<lparr> depth := depth opts + 1 \<rparr>)"
    let ?r = "HRef (length (heap s1))"
    from less.prems h1 have c2: "holds_cycle (heap s2)"
      by (simp add: holds_cycle_append s2_def)
    have nested: "?f (HRef 2) s2 = None"
      using c2 less.IH Suc by (intro relation_back_diverges) auto
    have keys: "map fst entries
        = [''documentId''] @ ''self'' # (if preserveOriginalId opts then [''id''] else [])"
      by (simp add: entries_def)
    have get_doc: "h_get (heap s2) ?r ''documentId'' = HStr d"
      and get_self: "h_get (heap s2) ?r ''self'' = HRef 2"
      by (simp_all add: h_get_def cell_def s2_def entries_def)
    have loop: "for_each_key ?f ?r (map fst entries) s2 = None"
      unfolding keys by (rule for_each_key_None) (simp_all add: get_doc get_self nested)
    from less.prems h1 have
      id: "h_get (heap s) (HRef 0) ''id'' = HNum 1"
      and at: "h_get (heap s) (HRef 0) ''attributes'' = HRef (Suc 0)"
      and oe: "own_entries (heap s1) (HRef (Suc 0)) = [(''self'', HRef 2)]"
      by (simp_all add: h_get_def own_entries_def holds_cycle_def)
    have sp: "spread_into [(''documentId'', HStr d)] [(''self'', HRef 2)] = ?spread"
      by (simp add: spread_into_def)
    have step: "transformV4ItemToV5 (Suc m) (HRef 0) opts s =
        and_then (for_each_key ?f ?r (map fst entries) s2) (\<lambda>u s3. ret ?r s3)"
      by (simp add: transform_Suc id at d oe sp alloc_eq Let_def entries_def s2_def
            split del: if_split cong: if_cong)
    show ?thesis
      unfolding Suc step loop by simp
  qed
qed

text \<open>
  The cycle guard of \<open>transform\<close> does fire where the item is reached again through
  \<open>transform\<close>: an item that is its own attribute (no relation wrapper) is replaced by the
  marker \<open>{ __circular_ref: true }\<close>.
\<close>

lemma self_attribute_marked:
  "returned (transform 5 (HRef 0) V4 V5 no_transform_options (initial_state self_attribute))
   \<and> h_path
        (heap_of (transform 5 (HRef 0) V4 V5 no_transform_options (initial_state self_attribute)))
        (result_of (transform 5 (HRef 0) V4 V5 no_transform_options (initial_state self_attribute)))
        [''self'', ''__circular_ref'']
      = HBool True"
  by code_simp

text \<open>
  C1. For the self-related item \<open>a = { id: 1, attributes: { self: { data: a } } }\<close> no call
  stack allowance suffices: \<open>transform(a, 'v4', 'v5')\<close> recurses without end (in JavaScript,
  until the stack overflows). The relation branch never passes through the guards of
  \<open>transform\<close>.
\<close>

theorem transform_self_relation_never_returns:
  "transform fuel (HRef 0) V4 V5 no_transform_options (initial_state self_related) = None"
proof (cases fuel)
  case 0 then show ?thesis by simp
next
  case (Suc n)
  let ?s = "cache_add (HRef 0) (initial_state self_related)"
  have hc: "holds_cycle (heap ?s)"
    by (simp add: holds_cycle_def initial_state_def self_related_def cell_def)
  have "transformV4ToV5 n (HRef 0) (transform_defaults no_transform_options) ?s = None"
  proof (cases n)
    case 0 then show ?thesis by simp
  next
    case (Suc m)
    have "\<not> h_isArray (heap ?s) (HRef 0)"
      by (simp add: h_isArray_def initial_state_def self_related_def cell_def)
    with self_relation_diverges [OF hc] Suc show ?thesis
      by (simp add: transform_Suc)
  qed
  with Suc show ?thesis
    by (simp add: transform_Suc transform_defaults_def no_transform_options_def MAX_DEPTH_def
          initial_state_def)
qed

text \<open>The depth guard of \<open>transform\<close> itself: beyond depth 10 the data is returned as it is.\<close>

lemma transform_beyond_max_depth:
  "opt_depth options = Some d \<Longrightarrow> 10 < d \<Longrightarrow>
     transform (Suc n) data src tgt options s = Some (Inr data, s)"
  by (simp add: transform_Suc transform_defaults_def MAX_DEPTH_def ret_def)

text \<open>A value that is not an array is refused with the stated error.\<close>

lemma batchTransform_not_array:
  "\<not> h_isArray (heap s) items \<Longrightarrow>
     batchTransform (Suc n) items src tgt options s
       = Some (Inl (Error ''batchTransform requires an array of items''), s)"
  by (simp add: batchTransform_def throw_def)

text \<open>
  C9. Given the array \<open>[{ documentId: 5 }]\<close>, \<open>batchTransform(items, 'v5', 'v4')\<close> throws a
  \<open>TypeError\<close>: \<open>mapV5ToV4\<close> calls \<open>documentId.match\<close> on the number.
\<close>

theorem batchTransform_array_throws:
  "h_isArray (heap (initial_state numeric_documentId_items)) (HRef 0)
   \<and> thrown (batchTransform 10 (HRef 0) V5 V4 no_transform_options
               (initial_state numeric_documentId_items))
     = Some (TypeError ''documentId.match is not a function'')"
  by code_simp

subsection \<open>Transformations only extend the heap\<close>

lemma extends_refl [simp]: "extends h h"
  by (simp add: extends_def)

lemma extends_length:
  assumes "extends h h'"
  shows "length h \<le> length h'"
proof -
  from assms have "length (take (length h) h') = length h"
    by (simp add: extends_def)
  then show ?thesis by simp
qed

lemma extends_append [simp]: "extends h (h @ t)"
  by (simp add: extends_def)

lemma extends_trans: "extends h h' \<Longrightarrow> extends h' h'' \<Longrightarrow> extends h h''"
proof -
  assume a: "extends h h'" and b: "extends h' h''"
  from a have l: "length h \<le> length h'" by (rule extends_length)
  from b have "take (length h) (take (length h') h'') = take (length h) h'"
    by (simp add: extends_def)
  with l a show ?thesis by (simp add: extends_def min_def)
qed

lemma extends_nth: "extends h h' \<Longrightarrow> a < length h \<Longrightarrow> h' ! a = h ! a"
  unfolding extends_def by (metis nth_take)

lemma extends_cell: "extends h h' \<Longrightarrow> a < length h \<Longrightarrow> cell h' a = cell h a"
  using extends_nth [of h h' a] extends_length [of h h'] by (simp add: cell_def)

lemma extends_update: "extends h h' \<Longrightarrow> length h \<le> r \<Longrightarrow> extends h (h'[r := x])"
  by (simp add: extends_def)

lemma grows_from_None [simp]: "grows_from h None"
  by (simp add: grows_from_def)

lemma grows_from_Some [simp]: "grows_from h (Some (r, s')) = extends h (heap s')"
  by (simp add: grows_from_def)

lemma grows_ret [simp]: "grows_from h (ret v s) = extends h (heap s)"
  by (simp add: ret_def)

lemma grows_throw [simp]: "grows_from h (throw e s) = extends h (heap s)"
  by (simp add: throw_def)

lemma grows_alloc: "extends h (heap s) \<Longrightarrow> grows_from h (alloc obj s)"
  by (auto simp: alloc_def intro: extends_trans)

lemma grows_and_then:
  assumes "grows_from h m"
    and "\<And>v s1. m = Some (Inr v, s1) \<Longrightarrow> extends h (heap s1) \<Longrightarrow> grows_from h (f v s1)"
  shows "grows_from h (and_then m f)"
  using assms by (auto simp: and_then_def split: option.splits sum.splits prod.splits)

lemma grows_try_finally:
  assumes "grows_from h m" and "\<And>s. heap (c s) = heap s"
  shows "grows_from h (try_finally m c)"
  using assms by (auto simp: try_finally_def split: option.splits)

lemma grows_call_mapV4ToV5: "extends h (heap s) \<Longrightarrow> grows_from h (call_mapV4ToV5 v ct s)"
  by (auto simp: call_mapV4ToV5_def split: option.splits prod.splits)

lemma grows_call_mapV5ToV4: "extends h (heap s) \<Longrightarrow> grows_from h (call_mapV5ToV4 v ct s)"
  by (auto simp: call_mapV5ToV4_def split: option.splits sum.splits)

lemma grows_map_calls:
  assumes "\<And>x s. extends h (heap s) \<Longrightarrow> grows_from h (f x s)" and "extends h (heap s)"
  shows "grows_from h (map_calls f xs s)"
  using assms(2)
proof (induction xs arbitrary: s)
  case Nil then show ?case by simp
next
  case (Cons x xs)
  show ?case
    by (auto intro!: grows_and_then assms(1) Cons)
qed

lemma grows_array_map:
  assumes "\<And>x s. extends h (heap s) \<Longrightarrow> grows_from h (f x s)" and "extends h (heap s)"
  shows "grows_from h (array_map f xs s)"
  unfolding array_map_def
  by (intro grows_and_then grows_map_calls grows_alloc assms)

lemma heap_cache_add [simp]: "heap (cache_add d s) = heap s"
  by (cases d) simp_all

lemma heap_cache_delete [simp]: "heap (cache_delete d s) = heap s"
  by (cases d) simp_all

lemma extends_set_prop:
  "extends h (heap s) \<Longrightarrow> length h \<le> a \<Longrightarrow> extends h (heap (set_prop a key v s))"
  by (auto simp: set_prop_def extends_update split: hobj.splits)

lemma grows_for_each_key:
  assumes "\<And>v s. extends h (heap s) \<Longrightarrow> grows_from h (f v s)"
    and "extends h (heap s)" and "length h \<le> a"
  shows "grows_from h (for_each_key f (HRef a) keys s)"
  using assms(2)
proof (induction keys arbitrary: s)
  case Nil then show ?case by simp
next
  case (Cons k keys)
  show ?case
    by (auto simp: Let_def intro!: grows_and_then assms(1) Cons.IH Cons.prems extends_set_prop assms(3))
qed


lemma grows_transformMedia:
  "extends h (heap s) \<Longrightarrow> grows_from h (transformMedia media src tgt s)"
  unfolding transformMedia_def transformV4MediaToV5_def transformV5MediaToV4_def Let_def
  by (auto intro!: grows_and_then grows_alloc grows_call_mapV4ToV5 grows_call_mapV5ToV4)

lemma transform_grows:
  shows "extends h (heap s) \<Longrightarrow> grows_from h (transform n data src tgt options s)"
    and "extends h (heap s) \<Longrightarrow> grows_from h (transformV4ToV5 n data opts s)"
    and "extends h (heap s) \<Longrightarrow> grows_from h (transformV4ItemToV5 n data opts s)"
    and "extends h (heap s) \<Longrightarrow> grows_from h (transformV5ToV4 n data opts s)"
    and "extends h (heap s) \<Longrightarrow> grows_from h (transformV5ItemToV4 n data opts s)"
    and "extends h (heap s) \<Longrightarrow> grows_from h (transformNestedData n data src tgt opts s)"
    and "extends h (heap s) \<Longrightarrow> grows_from h (transformRelationData n data src tgt opts s)"
proof (induction n arbitrary: h s data src tgt options opts)
  case 0
  {
    case 1 show ?case by simp
  next
    case 2 show ?case by simp
  next
    case 3 show ?case by simp
  next
    case 4 show ?case by simp
  next
    case 5 show ?case by simp
  next
    case 6 show ?case by simp
  next
    case 7 show ?case by simp
  }
next
  case (Suc n)
  {
    case 1
    then show ?case
      unfolding transform_Suc Let_def
      by (auto intro!: grows_alloc grows_try_finally Suc.IH)
  next
    case 2
    then show ?case
      unfolding transform_Suc
      by (auto intro!: grows_array_map Suc.IH)
  next
    case 3
    have len: "length h \<le> length (heap s1)" if "extends h (heap s1)" for s1
      using that by (rule extends_length)
    from 3 show ?case
      unfolding transform_Suc Let_def
      by (auto simp: alloc_eq intro!: grows_and_then grows_call_mapV4ToV5 grows_for_each_key
            Suc.IH extends_trans [OF _ extends_append] dest: extends_length)
  next
    case 4
    then show ?case
      unfolding transform_Suc
      by (auto intro!: grows_array_map Suc.IH)
  next
    case 5
    then show ?case
      unfolding transform_Suc Let_def
      by (auto simp: alloc_eq intro!: grows_and_then grows_call_mapV5ToV4 grows_for_each_key
            Suc.IH extends_trans [OF _ extends_append] dest: extends_length)
  next
    case 6
    then show ?case
      unfolding transform_Suc
      by (auto intro!: grows_array_map grows_transformMedia Suc.IH)
  next
    case 7
    then show ?case
      unfolding transform_Suc Let_def
      by (auto intro!: grows_array_map grows_and_then grows_alloc Suc.IH)
  }
qed

subsection \<open>The cycle cache is restored\<close>

lemma keeps_cache_None [simp]: "keeps_cache c None"
  by (simp add: keeps_cache_def)

lemma keeps_cache_Some [simp]: "keeps_cache c (Some (r, s')) = cache_is c s'"
  by (simp add: keeps_cache_def)

lemma keeps_ret [simp]: "keeps_cache c (ret v s) = cache_is c s"
  by (simp add: ret_def)

lemma keeps_throw [simp]: "keeps_cache c (throw e s) = cache_is c s"
  by (simp add: throw_def)

lemma keeps_alloc: "cache_is c s \<Longrightarrow> keeps_cache c (alloc obj s)"
  by (simp add: alloc_def cache_is_def)

lemma keeps_and_then:
  assumes "keeps_cache c m"
    and "\<And>v s1. m = Some (Inr v, s1) \<Longrightarrow> cache_is c s1 \<Longrightarrow> keeps_cache c (f v s1)"
  shows "keeps_cache c (and_then m f)"
  using assms by (auto simp: and_then_def split: option.splits sum.splits prod.splits)

lemma keeps_call_mapV4ToV5: "cache_is c s \<Longrightarrow> keeps_cache c (call_mapV4ToV5 v ct s)"
  by (auto simp: call_mapV4ToV5_def cache_is_def split: option.splits prod.splits)

lemma keeps_call_mapV5ToV4: "cache_is c s \<Longrightarrow> keeps_cache c (call_mapV5ToV4 v ct s)"
  by (auto simp: call_mapV5ToV4_def cache_is_def split: option.splits sum.splits)

lemma keeps_map_calls:
  assumes "\<And>x s. cache_is c s \<Longrightarrow> keeps_cache c (f x s)" and "cache_is c s"
  shows "keeps_cache c (map_calls f xs s)"
  using assms(2)
proof (induction xs arbitrary: s)
  case Nil then show ?case by simp
next
  case (Cons x xs)
  show ?case
    by (auto intro!: keeps_and_then assms(1) Cons)
qed

lemma keeps_array_map:
  assumes "\<And>x s. cache_is c s \<Longrightarrow> keeps_cache c (f x s)" and "cache_is c s"
  shows "keeps_cache c (array_map f xs s)"
  unfolding array_map_def
  by (intro keeps_and_then keeps_map_calls keeps_alloc assms)

lemma cache_is_heap_update [simp]: "cache_is c (s \<lparr> heap := h \<rparr>) = cache_is c s"
  by (simp add: cache_is_def)

lemma cache_is_set_prop [simp]: "cache_is c (set_prop a key v s) = cache_is c s"
  by (cases "cell (heap s) a") (simp_all add: set_prop_def)

lemma cache_is_assign [simp]: "cache_is c (assign obj key v s) = cache_is c s"
  by (cases obj) simp_all

lemma keeps_for_each_key:
  assumes "\<And>v s. cache_is c s \<Longrightarrow> keeps_cache c (f v s)" and "cache_is c s"
  shows "keeps_cache c (for_each_key f obj keys s)"
  using assms(2)
proof (induction keys arbitrary: s)
  case Nil then show ?case by simp
next
  case (Cons k keys)
  show ?case
    by (auto simp: Let_def simp del: assign.simps intro!: keeps_and_then assms(1) Cons.IH Cons.prems)
qed

lemma keeps_transformMedia:
  "cache_is c s \<Longrightarrow> keeps_cache c (transformMedia media src tgt s)"
  unfolding transformMedia_def transformV4MediaToV5_def transformV5MediaToV4_def Let_def
  by (auto intro!: keeps_and_then keeps_alloc keeps_call_mapV4ToV5 keeps_call_mapV5ToV4)

lemma keeps_try_finally:
  assumes "keeps_cache c' m" and "\<And>s. cache_is c' s \<Longrightarrow> cache_is c (cl s)"
  shows "keeps_cache c (try_finally m cl)"
  using assms by (auto simp: try_finally_def split: option.splits)

lemma cache_add_delete:
  "\<not> in_cache s data \<Longrightarrow> cache_is c s \<Longrightarrow> cache_is (in_progress (cache_add data s)) s' \<Longrightarrow>
     cache_is c (cache_delete data s')"
  by (cases data) (auto simp: List.insert_def cache_is_def)

lemma cache_is_cache_add: "cache_is (in_progress (cache_add data s)) (cache_add data s)"
  by (simp add: cache_is_def)

text \<open>
  Whatever comes back from a call, a value or an error, leaves \<open>CIRCULAR_REF_CACHE\<close> as
  the call found it: the address that \<open>transform\<close> adds is removed in its \<open>finally\<close> block.
\<close>

lemma transform_restores_cache:
  shows "cache_is c s \<Longrightarrow> keeps_cache c (transform n data src tgt options s)"
    and "cache_is c s \<Longrightarrow> keeps_cache c (transformV4ToV5 n data opts s)"
    and "cache_is c s \<Longrightarrow> keeps_cache c (transformV4ItemToV5 n data opts s)"
    and "cache_is c s \<Longrightarrow> keeps_cache c (transformV5ToV4 n data opts s)"
    and "cache_is c s \<Longrightarrow> keeps_cache c (transformV5ItemToV4 n data opts s)"
    and "cache_is c s \<Longrightarrow> keeps_cache c (transformNestedData n data src tgt opts s)"
    and "cache_is c s \<Longrightarrow> keeps_cache c (transformRelationData n data src tgt opts s)"
proof (induction n arbitrary: c s data src tgt options opts)
  case 0
  {
    case 1 show ?case by simp
  next
    case 2 show ?case by simp
  next
    case 3 show ?case by simp
  next
    case 4 show ?case by simp
  next
    case 5 show ?case by simp
  next
    case 6 show ?case by simp
  next
    case 7 show ?case by simp
  }
next
  case (Suc n)
  {
    case 1
    have nc: "\<not> in_cache s data" if "\<not> is_ref data"
      using that by (cases data) simp_all
    have fin: "keeps_cache c (try_finally m (cache_delete data))"
      if "keeps_cache (in_progress (cache_add data s)) m" and "\<not> in_cache s data"
      for m :: "hval outcome"
      using that(1)
      by (rule keeps_try_finally) (rule cache_add_delete [OF that(2) 1])
    show ?case
    proof (cases "src = tgt \<or> depth (transform_defaults options) > MAX_DEPTH
                    \<or> (is_ref data \<and> in_cache s data)")
      case True
      with 1 show ?thesis
        unfolding transform_Suc Let_def by (auto intro!: keeps_alloc)
    next
      case False
      then have notin: "\<not> in_cache s data"
        using nc by blast
      have body: "keeps_cache (in_progress (cache_add data s))
             (if src = V4 \<and> tgt = V5
              then transformV4ToV5 n data (transform_defaults options) (cache_add data s)
              else if src = V5 \<and> tgt = V4
                then transformV5ToV4 n data (transform_defaults options) (cache_add data s)
                else ret data (cache_add data s))"
        by (auto intro!: Suc.IH cache_is_cache_add)
      from False show ?thesis
        unfolding transform_Suc Let_def
        using fin [OF body notin] by auto
    qed
  next
    case 2
    then show ?case
      unfolding transform_Suc
      by (auto intro!: keeps_array_map Suc.IH)
  next
    case 3
    then show ?case
      unfolding transform_Suc Let_def
      by (auto simp: alloc_eq
            intro!: keeps_and_then keeps_call_mapV4ToV5 keeps_for_each_key Suc.IH)
  next
    case 4
    then show ?case
      unfolding transform_Suc
      by (auto intro!: keeps_array_map Suc.IH)
  next
    case 5
    then show ?case
      unfolding transform_Suc Let_def
      by (auto simp: alloc_eq
            intro!: keeps_and_then keeps_call_mapV5ToV4 keeps_for_each_key Suc.IH)
  next
    case 6
    then show ?case
      unfolding transform_Suc
      by (auto intro!: keeps_array_map keeps_transformMedia Suc.IH)
  next
    case 7
    then show ?case
      unfolding transform_Suc Let_def
      by (auto intro!: keeps_array_map keeps_and_then keeps_alloc Suc.IH)
  }
qed

subsection \<open>Association lists and heap cells\<close>

lemma spread_into_fresh:
  "distinct (map fst xs) \<Longrightarrow> fst ` set base \<inter> fst ` set xs = {} \<Longrightarrow>
     spread_into base xs = base @ xs"
proof (induction xs arbitrary: base)
  case Nil
  then show ?case by (simp add: spread_into_def)
next
  case (Cons x xs)
  from Cons.prems have f: "fst x \<notin> fst ` set base" by auto
  from Cons.prems have "fst ` set (base @ [x]) \<inter> fst ` set xs = {}" by auto
  with Cons.IH [of "base @ [x]"] Cons.prems(1)
  have "spread_into (base @ [x]) xs = (base @ [x]) @ xs" by simp
  with f show ?case
    by (cases x) (simp add: spread_into_def update_fresh)
qed

lemma map_of_update_other:
  "k \<noteq> k' \<Longrightarrow> map_of (AList.update k v al) k' = map_of al k'"
  by (simp add: update_conv')

lemma map_fst_update:
  "k \<in> fst ` set al \<Longrightarrow> map fst (AList.update k v al) = map fst al"
  by (induction al) auto

lemma h_get_extends:
  "extends h h' \<Longrightarrow> valid_ref h x \<Longrightarrow> h_get h' x k = h_get h x k"
  by (cases x) (simp_all add: h_get_def valid_ref_def extends_cell)

lemma cell_update_other: "a \<noteq> r \<Longrightarrow> cell (h[r := x]) a = cell h a"
  by (simp add: cell_def)

lemma cell_update_same: "r < length h \<Longrightarrow> cell (h[r := x]) r = x"
  by (simp add: cell_def)

lemma cell_append_new: "cell (h @ [x]) (length h) = x"
  by (simp add: cell_def)

lemma cell_append_old: "a < length h \<Longrightarrow> cell (h @ t) a = cell h a"
  by (simp add: cell_def nth_append)

lemma own_entries_extends:
  "extends h h' \<Longrightarrow> valid_ref h x \<Longrightarrow> own_entries h' x = own_entries h x"
  by (cases x) (simp_all add: own_entries_def valid_ref_def extends_cell)

lemma h_isArray_extends:
  "extends h h' \<Longrightarrow> valid_ref h x \<Longrightarrow> h_isArray h' x = h_isArray h x"
  by (cases x) (simp_all add: h_isArray_def valid_ref_def extends_cell)

lemma valid_ref_extends: "extends h h' \<Longrightarrow> valid_ref h x \<Longrightarrow> valid_ref h' x"
  using extends_length [of h h'] by (cases x) (simp_all add: valid_ref_def)

lemma not_ref_to_js: "\<not> is_ref v \<Longrightarrow> \<exists>j. to_js v = Some j"
  by (cases v) auto

lemma of_js_to_js: "to_js v = Some j \<Longrightarrow> of_js j = Some v"
  by (cases v) auto

lemma h_get_defined:
  "h_get h (HRef a) key = v \<Longrightarrow> v \<noteq> HUndefined \<Longrightarrow>
     \<exists>kvs. cell h a = HObject kvs \<and> map_of kvs key = Some v"
  by (auto simp: h_get_def split: hobj.splits option.splits)

lemma not_array_object:
  "\<not> h_isArray h (HRef b) \<Longrightarrow> \<exists>kvs. cell h b = HObject kvs \<and> own_entries h (HRef b) = kvs"
  by (auto simp: h_isArray_def own_entries_def split: hobj.splits)

subsection \<open>Well-typed data is converted\<close>

text \<open>
  A conversion of a well-typed value returns, given a call stack allowance in proportion to
  the nesting depth of the value: four nested calls per level
  (\<open>transformNestedData\<close>, \<open>transform\<close>, \<open>transformV4ToV5\<close>, \<open>transformV4ItemToV5\<close>).
\<close>

lemma well_typed_prim [simp]: "\<not> is_ref v \<Longrightarrow> well_typed d h v"
  by (cases d; cases v) simp_all

lemma well_typed_Suc: "well_typed d h v \<Longrightarrow> well_typed (Suc d) h v"
proof (induction d arbitrary: v)
  case 0
  then show ?case by (cases v) simp_all
next
  case (Suc d)
  show ?case
  proof (cases v)
    case (HRef a)
    with Suc.prems have a: "a < length h" "typed_ids h v" by simp_all
    show ?thesis
    proof (cases "cell h a")
      case (HObject kvs)
      with Suc.prems HRef have "list_all (\<lambda>kv. well_typed d h (snd kv)) kvs"
        and dk: "distinct (map fst kvs)" by simp_all
      then have "list_all (\<lambda>kv. well_typed (Suc d) h (snd kv)) kvs"
        unfolding list_all_iff using Suc.IH by blast
      with a dk HRef HObject show ?thesis by simp
    next
      case (HArray xs)
      with Suc.prems HRef have "list_all (well_typed d h) xs" by simp
      then have "list_all (well_typed (Suc d) h) xs"
        unfolding list_all_iff using Suc.IH by blast
      with a HRef HArray show ?thesis by simp
    qed
  qed simp_all
qed

lemma well_typed_le: "well_typed d h v \<Longrightarrow> d \<le> d' \<Longrightarrow> well_typed d' h v"
proof (induction d')
  case 0
  then show ?case by simp
next
  case (Suc d')
  show ?case
  proof (cases "d = Suc d'")
    case True
    with Suc.prems show ?thesis by simp
  next
    case False
    with Suc.prems have "d \<le> d'" by simp
    with Suc.IH Suc.prems(1) have "well_typed d' h v" by blast
    then show ?thesis by (rule well_typed_Suc)
  qed
qed

lemma well_typed_ref:
  assumes "well_typed d h (HRef a)"
  obtains d' where "d = Suc d'" "a < length h" "typed_ids h (HRef a)"
  using assms by (cases d) simp_all

lemma well_typed_get:
  assumes "well_typed (Suc d) h x"
  shows "well_typed d h (h_get h x k)"
proof (cases x)
  case (HRef a)
  show ?thesis
  proof (cases "cell h a")
    case (HObject kvs)
    show ?thesis
    proof (cases "map_of kvs k")
      case None
      with HRef HObject show ?thesis by (simp add: h_get_def)
    next
      case (Some v)
      then have "(k, v) \<in> set kvs" by (rule map_of_SomeD)
      with assms HRef HObject have "well_typed d h v" by (auto simp: list_all_iff)
      with HRef HObject Some show ?thesis by (simp add: h_get_def)
    qed
  next
    case (HArray xs)
    with HRef show ?thesis by (simp add: h_get_def)
  qed
qed (simp_all add: h_get_def)

lemma well_typed_items:
  assumes "well_typed (Suc d) h x" and "y \<in> set (h_items h x)"
  shows "well_typed d h y"
  using assms by (cases x; cases "cell h (case x of HRef a \<Rightarrow> a | _ \<Rightarrow> 0)")
    (auto simp: h_items_def list_all_iff)

lemma zip_snd_in: "kv \<in> set (zip xs ys) \<Longrightarrow> snd kv \<in> set ys"
  by (metis prod.collapse set_zip_rightD)

lemma well_typed_entries:
  assumes "well_typed (Suc d) h x" and "kv \<in> set (own_entries h x)"
  shows "well_typed d h (snd kv)"
proof (cases x)
  case (HRef a)
  show ?thesis
  proof (cases "cell h a")
    case (HObject kvs)
    with assms HRef show ?thesis by (auto simp: own_entries_def list_all_iff)
  next
    case (HArray xs)
    with assms(2) HRef have "kv \<in> set (zip (map show_nat [0..<length xs]) xs)"
      by (simp add: own_entries_def)
    then have "snd kv \<in> set xs"
      by (rule zip_snd_in)
    with assms(1) HRef HArray show ?thesis by (auto simp: list_all_iff)
  qed
next
  case (HStr s)
  with assms(2) have "kv \<in> set (zip (map show_nat [0..<length s]) (map (\<lambda>c. HStr [c]) s))"
    by (simp add: own_entries_def)
  then have "snd kv \<in> set (map (\<lambda>c. HStr [c]) s)"
    by (rule zip_snd_in)
  then have "\<not> is_ref (snd kv)" by auto
  then show ?thesis by simp
qed (use assms(2) in \<open>simp_all add: own_entries_def\<close>)

lemma well_typed_extends:
  assumes "extends h h'"
  shows "well_typed d h v \<Longrightarrow> well_typed d h' v"
proof (induction d arbitrary: v)
  case 0
  then show ?case by simp
next
  case (Suc d)
  show ?case
  proof (cases v)
    case (HRef a)
    with Suc.prems have a: "a < length h" and t: "typed_ids h v" by simp_all
    from extends_length [OF assms] a have a': "a < length h'" by simp
    have c: "cell h' a = cell h a" using assms a by (rule extends_cell)
    have "valid_ref h v" using a HRef by (simp add: valid_ref_def)
    then have g: "h_get h' v k = h_get h v k" for k
      using assms by (simp add: h_get_extends)
    from t have t': "typed_ids h' v" by (simp add: typed_ids_def g)
    show ?thesis
    proof (cases "cell h a")
      case (HObject kvs)
      with Suc.prems HRef have "list_all (\<lambda>kv. well_typed d h (snd kv)) kvs"
        and dk: "distinct (map fst kvs)" by simp_all
      then have "list_all (\<lambda>kv. well_typed d h' (snd kv)) kvs"
        unfolding list_all_iff using Suc.IH by blast
      with a' t' c dk HRef HObject show ?thesis by simp
    next
      case (HArray xs)
      with Suc.prems HRef have "list_all (well_typed d h) xs" by simp
      then have "list_all (well_typed d h') xs"
        unfolding list_all_iff using Suc.IH by blast
      with a' t' c HRef HArray show ?thesis by simp
    qed
  qed simp_all
qed

lemma well_typed_distinct:
  assumes "well_typed d h (HRef a)" and "cell h a = HObject kvs"
  shows "distinct (map fst kvs)"
  using assms by (cases d) simp_all

lemma returns_fromE:
  assumes "returns_from h out"
  obtains v s' where "out = Some (Inr v, s')" "extends h (heap s')" "primitive_ids (registry s')"
proof (cases out)
  case None
  with assms show ?thesis by (simp add: returns_from_def)
next
  case (Some p)
  obtain r s' where p: "p = (r, s')" by (cases p)
  show ?thesis
  proof (cases r)
    case (Inl e)
    with assms Some p show ?thesis by (simp add: returns_from_def)
  next
    case (Inr v)
    with assms Some p that [of v s'] show ?thesis by (simp add: returns_from_def)
  qed
qed

lemma returns_None [simp]: "\<not> returns_from h None"
  by (simp add: returns_from_def)

lemma returns_Some [simp]:
  "returns_from h (Some (r, s')) = (\<exists>v. r = Inr v \<and> extends h (heap s') \<and> primitive_ids (registry s'))"
  by (cases r) (simp_all add: returns_from_def)

lemma returns_ret [simp]: "returns_from h (ret v s) = (extends h (heap s) \<and> primitive_ids (registry s))"
  by (simp add: ret_def)

lemma returns_alloc:
  "extends h (heap s) \<Longrightarrow> primitive_ids (registry s) \<Longrightarrow> returns_from h (alloc obj s)"
  by (simp add: alloc_eq extends_trans [OF _ extends_append])

lemma returns_and_then:
  assumes "returns_from h m"
    and "\<And>v s1. m = Some (Inr v, s1) \<Longrightarrow> extends h (heap s1) \<Longrightarrow> primitive_ids (registry s1)
           \<Longrightarrow> returns_from h (f v s1)"
  shows "returns_from h (and_then m f)"
  using assms(1)
proof (rule returns_fromE)
  fix v s'
  assume "m = Some (Inr v, s')" "extends h (heap s')" "primitive_ids (registry s')"
  with assms(2) [of v s'] show ?thesis by simp
qed

lemma returns_map_calls:
  assumes "\<And>x s. x \<in> set xs \<Longrightarrow> extends h (heap s) \<Longrightarrow> primitive_ids (registry s) \<Longrightarrow> returns_from h (f x s)"
    and "extends h (heap s)" and "primitive_ids (registry s)"
  shows "returns_from h (map_calls f xs s)"
  using assms
proof (induction xs arbitrary: s)
  case Nil
  then show ?case by simp
next
  case (Cons x xs)
  have fx: "returns_from h (f x s)"
    using Cons.prems by simp
  show ?case
    unfolding map_calls.simps
  proof (rule returns_and_then [OF fx])
    fix y and s1 :: TState
    assume s1: "extends h (heap s1)" "primitive_ids (registry s1)"
    have "returns_from h (map_calls f xs s1)"
      by (rule Cons.IH) (use Cons.prems(1) s1 in simp_all)
    then show "returns_from h (and_then (map_calls f xs s1) (\<lambda>ys. ret (y # ys)))"
      by (rule returns_and_then) simp
  qed
qed

lemma returns_array_map:
  assumes "\<And>x s. x \<in> set xs \<Longrightarrow> extends h (heap s) \<Longrightarrow> primitive_ids (registry s) \<Longrightarrow> returns_from h (f x s)"
    and "extends h (heap s)" and "primitive_ids (registry s)"
  shows "returns_from h (array_map f xs s)"
proof -
  have "returns_from h (map_calls f xs s)"
    using assms by (rule returns_map_calls)
  then show ?thesis
    unfolding array_map_def by (rule returns_and_then) (rule returns_alloc)
qed

lemma primitive_ids_update:
  assumes "primitive_ids reg" and "of_js (v4Id m) \<noteq> None"
  shows "primitive_ids (reg \<lparr> mappings := AList.update k m (mappings reg),
                              reverseMappings := AList.update d m (reverseMappings reg) \<rparr>)"
  using assms set_update_subset [of k m "mappings reg"] set_update_subset [of d m "reverseMappings reg"]
  unfolding primitive_ids_def list_all_iff by auto

lemma primitive_ids_mapV4ToV5:
  assumes "primitive_ids reg" and "of_js j \<noteq> None"
  shows "primitive_ids (snd (mapV4ToV5 rd j ct reg))"
  using assms
  by (auto simp: mapV4ToV5_def Let_def intro!: primitive_ids_update split: option.splits)

lemma returns_call_mapV4ToV5:
  assumes "\<not> is_ref v" and "extends h (heap s)" and "primitive_ids (registry s)"
  shows "returns_from h (call_mapV4ToV5 v ct s)"
proof -
  from assms(1) obtain j where j: "to_js v = Some j"
    using not_ref_to_js by blast
  then have "of_js j \<noteq> None"
    by (simp add: of_js_to_js)
  from primitive_ids_mapV4ToV5 [OF assms(3) this] assms(2) j show ?thesis
    by (simp add: call_mapV4ToV5_def split: prod.splits) (metis snd_conv)
qed

lemma find_Some_set: "find P xs = Some x \<Longrightarrow> x \<in> set xs"
  by (induction xs) (auto split: if_splits)

lemma mapV5ToV4_primitive:
  assumes "primitive_ids reg"
  shows "\<exists>j. mapV5ToV4 (JStr d) ct reg = Inr j \<and> of_js j \<noteq> None"
proof -
  have f: "of_js (v4Id (snd km)) \<noteq> None" if "km \<in> set (mappings reg)" for km
    using assms that by (auto simp: primitive_ids_def list_all_iff)
  have r: "of_js (v4Id m) \<noteq> None" if "map_of (reverseMappings reg) k = Some m" for k m
    using assms map_of_SomeD [OF that] by (auto simp: primitive_ids_def list_all_iff)
  let ?hit = "case map_of (reverseMappings reg) d of
                Some mapping \<Rightarrow> if contentType mapping = ct then Some mapping else None
              | None \<Rightarrow> None"
  show ?thesis
  proof (cases ?hit)
    case (Some m)
    then have "map_of (reverseMappings reg) d = Some m"
      by (auto split: option.splits if_splits)
    from r [OF this] Some show ?thesis
      by (simp add: mapV5ToV4_def)
  next
    case None
    show ?thesis
    proof (cases "find (\<lambda>km. v5DocumentId (snd km) = d \<and> contentType (snd km) = ct) (mappings reg)")
      case (Some km)
      from f [OF find_Some_set [OF this]] None Some show ?thesis
        by (simp add: mapV5ToV4_def)
    next
      case nf: None
      with None show ?thesis
        by (simp add: mapV5ToV4_def Let_def)
    qed
  qed
qed

lemma returns_call_mapV5ToV4:
  assumes "extends h (heap s)" and "primitive_ids (registry s)"
  shows "returns_from h (call_mapV5ToV4 (HStr d) ct s)"
proof -
  from mapV5ToV4_primitive [OF assms(2), of d ct] obtain j w where
    "mapV5ToV4 (JStr d) ct (registry s) = Inr j" "of_js j = Some w"
    by auto
  with assms show ?thesis
    by (simp add: call_mapV5ToV4_def)
qed

lemma well_typed_valid: "well_typed d h v \<Longrightarrow> valid_ref h v"
  by (cases v; cases d) (simp_all add: valid_ref_def)

lemma h_items_extends:
  "extends h h' \<Longrightarrow> valid_ref h x \<Longrightarrow> h_items h' x = h_items h x"
  by (cases x) (simp_all add: h_items_def valid_ref_def extends_cell)

lemma isRelationData_extends:
  "extends h h' \<Longrightarrow> valid_ref h x \<Longrightarrow> isRelationData h' x fmt = isRelationData h x fmt"
  by (cases fmt) (simp_all add: isRelationData_def h_get_extends h_isArray_extends)

lemma isMediaData_extends:
  "extends h h' \<Longrightarrow> valid_ref h x \<Longrightarrow> isMediaData h' x = isMediaData h x"
  by (simp add: isMediaData_def h_get_extends)

lemma well_typed_id: "well_typed d h v \<Longrightarrow> \<not> is_ref (h_get h v ''id'')"
  by (cases v; cases d) (simp_all add: typed_ids_def h_get_def)

lemma well_typed_documentId:
  assumes "well_typed d h v" and "h_truthy (h_get h v ''documentId'')"
    and "\<not> h_truthy (h_get h v ''id'')"
  obtains doc where "h_get h v ''documentId'' = HStr doc"
proof (cases v)
  case (HRef a)
  with assms(1) have "typed_ids h v" by (cases d) simp_all
  with assms(2,3) that show ?thesis
    by (cases "h_get h v ''documentId''") (simp_all add: typed_ids_def)
qed (use assms(2) in \<open>simp_all add: h_get_def\<close>)

lemma returns_resolve_id:
  assumes wt: "well_typed d h v" and doc: "h_truthy (h_get h v ''documentId'')"
    and ext: "extends h (heap s)" and prim: "primitive_ids (registry s)"
  shows "returns_from h
           (if h_truthy (h_get h v ''id'') then ret (h_get h v ''id'') s
            else call_mapV5ToV4 (h_get h v ''documentId'') ct s)"
proof (cases "h_truthy (h_get h v ''id'')")
  case True
  with ext prim show ?thesis by simp
next
  case False
  with wt doc obtain dstr where "h_get h v ''documentId'' = HStr dstr"
    by (rule well_typed_documentId)
  with False ext prim show ?thesis by (simp add: returns_call_mapV5ToV4)
qed

lemma well_typed_child: "well_typed d h x \<Longrightarrow> well_typed d h (h_get h x k)"
proof (cases d)
  case 0
  assume "well_typed d h x"
  with 0 have "\<not> is_ref x" by simp
  then have "h_get h x k = HUndefined" by (cases x) (simp_all add: h_get_def)
  then show ?thesis by simp
next
  case (Suc d')
  assume "well_typed d h x"
  with Suc have "well_typed d' h (h_get h x k)" by (simp add: well_typed_get del: well_typed.simps)
  then show ?thesis unfolding Suc by (rule well_typed_Suc)
qed

lemma well_typed_entry:
  assumes "well_typed d h x" and "kv \<in> set (own_entries h x)"
  shows "well_typed d h (snd kv)"
proof (cases d)
  case 0
  with assms(1) have nr: "\<not> is_ref x" by simp
  have "\<not> is_ref (snd kv)"
  proof (cases x)
    case (HStr s)
    with assms(2) have "kv \<in> set (zip (map show_nat [0..<length s]) (map (\<lambda>c. HStr [c]) s))"
      by (simp add: own_entries_def)
    then have "snd kv \<in> set (map (\<lambda>c. HStr [c]) s)" by (rule zip_snd_in)
    then show ?thesis by auto
  qed (use nr assms(2) in \<open>simp_all add: own_entries_def\<close>)
  then show ?thesis by simp
next
  case (Suc d')
  with assms have "well_typed d' h (snd kv)" by (simp add: well_typed_entries del: well_typed.simps)
  then show ?thesis unfolding Suc by (rule well_typed_Suc)
qed

lemma well_typed_item:
  assumes "well_typed (Suc d) h x" and "y \<in> set (h_items h x)"
  shows "well_typed d h y"
  using assms by (rule well_typed_items)

lemma registry_set_prop [simp]: "registry (set_prop a key v s) = registry s"
  by (cases "cell (heap s) a") (simp_all add: set_prop_def)

lemma length_heap_set_prop [simp]: "length (heap (set_prop a key v s)) = length (heap s)"
  by (cases "cell (heap s) a") (simp_all add: set_prop_def)

lemma h_get_set_prop_other:
  "k' \<noteq> k \<Longrightarrow> h_get (heap (set_prop r k v s)) (HRef r) k' = h_get (heap s) (HRef r) k'"
proof (cases "cell (heap s) r")
  case (HObject kvs)
  assume "k' \<noteq> k"
  then have "map_of (AList.update k v kvs) k' = map_of kvs k'"
    by (simp add: update_conv')
  with HObject show ?thesis
    by (cases "r < length (heap s)") (simp_all add: set_prop_def h_get_def cell_def)
next
  case (HArray xs)
  then show ?thesis by (simp add: set_prop_def)
qed

lemma returns_for_each_key:
  assumes f: "\<And>v s. P v \<Longrightarrow> extends h (heap s) \<Longrightarrow> primitive_ids (registry s) \<Longrightarrow> returns_from h (f v s)"
    and g: "\<And>v s. grows_from (heap s) (f v s)"
    and r: "length h \<le> r"
  shows "r < length (heap s) \<Longrightarrow> extends h (heap s) \<Longrightarrow> primitive_ids (registry s) \<Longrightarrow>
         distinct keys \<Longrightarrow>
         (\<forall>k \<in> set keys. is_ref (h_get (heap s) (HRef r) k) \<longrightarrow> P (h_get (heap s) (HRef r) k)) \<Longrightarrow>
         returns_from h (for_each_key f (HRef r) keys s)"
proof (induction keys arbitrary: s)
  case Nil
  then show ?case by simp
next
  case (Cons k keys)
  let ?v = "h_get (heap s) (HRef r) k"
  show ?case
  proof (cases "is_ref ?v")
    case False
    have "returns_from h (for_each_key f (HRef r) keys s)"
      by (rule Cons.IH) (use Cons.prems in simp_all)
    with False show ?thesis by (simp add: Let_def)
  next
    case True
    with Cons.prems have "P ?v" by simp
    then have fv: "returns_from h (f ?v s)"
      using Cons.prems(2,3) by (rule f)
    have "returns_from h (and_then (f ?v s) (\<lambda>v' s1. for_each_key f (HRef r) keys (assign (HRef r) k v' s1)))"
    proof (rule returns_and_then [OF fv])
      fix v' and s1 :: TState
      assume run: "f ?v s = Some (Inr v', s1)"
        and e1: "extends h (heap s1)" and p1: "primitive_ids (registry s1)"
      from g [of s ?v] run have es: "extends (heap s) (heap s1)" by simp
      let ?s2 = "assign (HRef r) k v' s1"
      have lr: "r < length (heap s1)"
        using extends_length [OF es] Cons.prems(1) by simp
      have same: "h_get (heap ?s2) (HRef r) k' = h_get (heap s) (HRef r) k'" if "k' \<in> set keys" for k'
      proof -
        from that Cons.prems(4) have "k' \<noteq> k" by auto
        then have "h_get (heap ?s2) (HRef r) k' = h_get (heap s1) (HRef r) k'"
          by (simp add: h_get_set_prop_other)
        also have "\<dots> = h_get (heap s) (HRef r) k'"
          using es Cons.prems(1) by (simp add: h_get_extends valid_ref_def)
        finally show ?thesis .
      qed
      show "returns_from h (for_each_key f (HRef r) keys ?s2)"
      proof (rule Cons.IH)
        show "r < length (heap ?s2)" using lr by simp
        show "extends h (heap ?s2)" using e1 r by (simp add: extends_set_prop)
        show "primitive_ids (registry ?s2)" using p1 by simp
        show "distinct keys" using Cons.prems(4) by simp
        show "\<forall>k' \<in> set keys. is_ref (h_get (heap ?s2) (HRef r) k') \<longrightarrow> P (h_get (heap ?s2) (HRef r) k')"
        proof (intro ballI impI)
          fix k' assume k': "k' \<in> set keys" and "is_ref (h_get (heap ?s2) (HRef r) k')"
          then have "is_ref (h_get (heap s) (HRef r) k')" by (simp only: same)
          with Cons.prems(5) k' have "P (h_get (heap s) (HRef r) k')" by simp
          then show "P (h_get (heap ?s2) (HRef r) k')" by (simp only: same [OF k'])
        qed
      qed
    qed
    with True show ?thesis by (simp add: Let_def del: assign.simps)
  qed
qed

lemma returns_try_finally:
  assumes "returns_from h m" and "\<And>s. heap (c s) = heap s" and "\<And>s. registry (c s) = registry s"
  shows "returns_from h (try_finally m c)"
  using assms(1) by (rule returns_fromE) (simp add: assms(2,3))

lemma registry_cache_add [simp]: "registry (cache_add d s) = registry s"
  by (cases d) simp_all

lemma registry_cache_delete [simp]: "registry (cache_delete d s) = registry s"
  by (cases d) simp_all

lemma object_values:
  assumes "cell (heap s) r = HObject entries" and "\<forall>kv \<in> set entries. P (snd kv)"
  shows "\<forall>k \<in> set keys. is_ref (h_get (heap s) (HRef r) k) \<longrightarrow> P (h_get (heap s) (HRef r) k)"
proof (intro ballI impI)
  fix k assume "is_ref (h_get (heap s) (HRef r) k)"
  then obtain v where v: "map_of entries k = Some v" "h_get (heap s) (HRef r) k = v"
    using assms(1) by (cases "map_of entries k") (simp_all add: h_get_def)
  from map_of_SomeD [OF v(1)] assms(2) have "P v" by auto
  with v(2) show "P (h_get (heap s) (HRef r) k)" by simp
qed

lemma set_spread_into: "set (spread_into base xs) \<subseteq> set base \<union> set xs"
proof
  fix kv assume "kv \<in> set (spread_into base xs)"
  from foldl_update_set [OF this [unfolded spread_into_def]] show "kv \<in> set base \<union> set xs"
    by auto
qed

lemma distinct_spread_into:
  "distinct (map fst base) \<Longrightarrow> distinct (map fst (spread_into base xs))"
  unfolding spread_into_def by (rule foldl_update_distinct)

text \<open>Reading a well-typed value in a heap that extends the one it is well-typed in.\<close>

lemma readings:
  assumes "well_typed d h x" and "extends h h'"
  shows "h_get h' x k = h_get h x k" and "h_isArray h' x = h_isArray h x"
    and "h_items h' x = h_items h x" and "own_entries h' x = own_entries h x"
    and "isRelationData h' x fmt = isRelationData h x fmt" and "isMediaData h' x = isMediaData h x"
  using assms(2) well_typed_valid [OF assms(1)]
  by (simp_all add: h_get_extends h_isArray_extends h_items_extends own_entries_extends
        isRelationData_extends isMediaData_extends)

lemma returns_transformMedia:
  assumes wt: "well_typed d h media" and ext: "extends h (heap s)"
    and prim: "primitive_ids (registry s)"
  shows "returns_from h (transformMedia media src tgt s)"
proof -
  note rd = readings [OF wt ext]
  have idp: "\<not> is_ref (h_get h media ''id'')"
    using wt by (rule well_typed_id)
  have v4: "returns_from h (transformV4MediaToV5 media s)"
  proof (cases "\<not> h_truthy media \<or> \<not> h_truthy (h_get h media ''attributes'')")
    case True
    with ext prim show ?thesis by (auto simp: transformV4MediaToV5_def rd)
  next
    case False
    have "returns_from h (and_then (call_mapV4ToV5 (h_get h media ''id'') ''media'' s)
       (\<lambda>documentId s1. alloc (HObject (spread_into
            [(''documentId'', HStr documentId), (''id'', h_get h media ''id'')]
            (own_entries (heap s1) (h_get h media ''attributes'')))) s1))"
      by (rule returns_and_then [OF returns_call_mapV4ToV5 [OF idp ext prim]]) (rule returns_alloc)
    with False show ?thesis by (simp add: transformV4MediaToV5_def rd Let_def)
  qed
  have v5: "returns_from h (transformV5MediaToV4 media s)"
  proof (cases "\<not> h_truthy media \<or> \<not> h_truthy (h_get h media ''documentId'')")
    case True
    with ext prim show ?thesis by (auto simp: transformV5MediaToV4_def rd)
  next
    case False
    then have td: "h_truthy (h_get h media ''documentId'')" by simp
    have "returns_from h (and_then
        (alloc (HObject (rest_without [''documentId'', ''id''] (own_entries h media))) s)
        (\<lambda>attributes s1.
           and_then (if h_truthy (h_get h media ''id'') then ret (h_get h media ''id'') s1
                     else call_mapV5ToV4 (h_get h media ''documentId'') ''media'' s1)
             (\<lambda>newId s2. alloc (HObject [(''id'', newId), (''attributes'', attributes)]) s2)))"
    proof (rule returns_and_then [OF returns_alloc [OF ext prim]])
      fix attributes and s1 :: TState
      assume e1: "extends h (heap s1)" and p1: "primitive_ids (registry s1)"
      have "returns_from h (if h_truthy (h_get h media ''id'') then ret (h_get h media ''id'') s1
                     else call_mapV5ToV4 (h_get h media ''documentId'') ''media'' s1)"
        using wt td e1 p1 by (rule returns_resolve_id)
      then show "returns_from h (and_then (if h_truthy (h_get h media ''id'') then ret (h_get h media ''id'') s1
                     else call_mapV5ToV4 (h_get h media ''documentId'') ''media'' s1)
             (\<lambda>newId s2. alloc (HObject [(''id'', newId), (''attributes'', attributes)]) s2))"
        by (rule returns_and_then) (rule returns_alloc)
    qed
    with False show ?thesis by (simp add: transformV5MediaToV4_def rd Let_def)
  qed
  from v4 v5 ext prim show ?thesis
    by (simp add: transformMedia_def)
qed

text \<open>One legacy item, given that its nested values are converted.\<close>

lemma returns_transformV4ItemToV5:
  assumes nested: "\<And>v s'. well_typed d h v \<Longrightarrow> extends h (heap s') \<Longrightarrow> primitive_ids (registry s')
        \<Longrightarrow> returns_from h (transformNestedData n v V4 V5 (opts \<lparr> depth := depth opts + 1 \<rparr>) s')"
    and wt: "well_typed (Suc d) h item" and ext: "extends h (heap s)"
    and prim: "primitive_ids (registry s)"
  shows "returns_from h (transformV4ItemToV5 (Suc n) item opts s)"
proof (cases "is_ref item")
  case False
  with ext prim show ?thesis by (simp add: transform_Suc)
next
  case True
  note rd = readings [OF wt ext]
  let ?id = "h_get h item ''id''"
  let ?at = "h_get h item ''attributes''"
  have idp: "\<not> is_ref ?id" using wt by (rule well_typed_id)
  have wat: "well_typed d h ?at" using wt by (rule well_typed_get)
  have call: "returns_from h (call_mapV4ToV5 ?id (ctype opts) s)"
    using idp ext prim by (rule returns_call_mapV4ToV5)
  let ?f = "\<lambda>v. transformNestedData n v V4 V5 (opts \<lparr> depth := depth opts + 1 \<rparr>)"
  consider (nest) "h_truthy ?id" "h_truthy ?at" | (flat) "h_truthy ?id" "\<not> h_truthy ?at"
    | (none) "\<not> h_truthy ?id"
    by blast
  then show ?thesis
  proof cases
    case none
    with True ext prim show ?thesis by (simp add: transform_Suc rd)
  next
    case flat
    have "returns_from h (and_then (call_mapV4ToV5 ?id (ctype opts) s) (\<lambda>documentId s1.
               alloc (HObject
                  (spread_into
                     [(''documentId'', HStr documentId),
                      (''id'', if preserveOriginalId opts then ?id else HUndefined)]
                     (rest_without [''id''] (own_entries (heap s1) item)))) s1))"
      by (rule returns_and_then [OF call]) (rule returns_alloc)
    with True flat show ?thesis by (simp add: transform_Suc rd Let_def)
  next
    case nest
    have "returns_from h (and_then (call_mapV4ToV5 ?id (ctype opts) s) (\<lambda>documentId s1.
               let spread = spread_into [(''documentId'', HStr documentId)]
                              (own_entries (heap s1) ?at);
                   entries = (if preserveOriginalId opts
                              then AList.update ''id'' ?id spread else spread)
               in and_then (alloc (HObject entries) s1) (\<lambda>result s2.
                    and_then (for_each_key ?f result (map fst entries) s2)
                      (\<lambda>u s3. ret result s3))))"
    proof (rule returns_and_then [OF call])
      fix documentId and s1 :: TState
      assume e1: "extends h (heap s1)" and p1: "primitive_ids (registry s1)"
      define entries where "entries =
         (if preserveOriginalId opts
          then AList.update ''id'' ?id (spread_into [(''documentId'', HStr documentId)]
                  (own_entries (heap s1) ?at))
          else spread_into [(''documentId'', HStr documentId)] (own_entries (heap s1) ?at))"
      define s2 where "s2 = s1 \<lparr> heap := heap s1 @ [HObject entries] \<rparr>"
      let ?r = "length (heap s1)"
      have oe: "own_entries (heap s1) ?at = own_entries h ?at"
        using wat e1 by (rule readings)
      have sp: "\<forall>kv \<in> set (spread_into [(''documentId'', HStr documentId)] (own_entries h ?at)).
                  well_typed d h (snd kv)"
      proof
        fix kv assume "kv \<in> set (spread_into [(''documentId'', HStr documentId)] (own_entries h ?at))"
        with set_spread_into
        have "kv = (''documentId'', HStr documentId) \<or> kv \<in> set (own_entries h ?at)" by fastforce
        then show "well_typed d h (snd kv)"
        proof
          assume "kv = (''documentId'', HStr documentId)"
          then show ?thesis by simp
        next
          assume "kv \<in> set (own_entries h ?at)"
          with wat show ?thesis by (rule well_typed_entry)
        qed
      qed
      have vals: "\<forall>kv \<in> set entries. well_typed d h (snd kv)"
      proof (cases "preserveOriginalId opts")
        case False
        with sp show ?thesis by (simp add: entries_def oe)
      next
        case True
        have "set entries \<subseteq> insert (''id'', ?id)
                 (set (spread_into [(''documentId'', HStr documentId)] (own_entries h ?at)))"
          using True set_update_subset by (simp add: entries_def oe)
        with sp idp show ?thesis by auto
      qed
      have dk: "distinct (map fst entries)"
        by (simp add: entries_def distinct_spread_into distinct_update)
      have e2: "extends h (heap s2)"
        using e1 by (simp add: s2_def extends_trans [OF _ extends_append])
      have c2: "cell (heap s2) ?r = HObject entries"
        by (simp add: s2_def cell_append_new)
      have loop: "returns_from h (for_each_key ?f (HRef ?r) (map fst entries) s2)"
      proof (rule returns_for_each_key [where P = "well_typed d h"])
        show "length h \<le> ?r" using e1 by (rule extends_length)
        show "?r < length (heap s2)" by (simp add: s2_def)
        show "extends h (heap s2)" by (rule e2)
        show "primitive_ids (registry s2)" using p1 by (simp add: s2_def)
        show "distinct (map fst entries)" by (rule dk)
        show "\<forall>k \<in> set (map fst entries). is_ref (h_get (heap s2) (HRef ?r) k)
                \<longrightarrow> well_typed d h (h_get (heap s2) (HRef ?r) k)"
          using c2 vals by (rule object_values)
        show "grows_from (heap s') (?f v s')" for v s'
          by (rule transform_grows) simp
        show "returns_from h (?f v s')"
          if "well_typed d h v" "extends h (heap s')" "primitive_ids (registry s')" for v s'
          using that by (rule nested)
      qed
      have "returns_from h (and_then (for_each_key ?f (HRef ?r) (map fst entries) s2)
                      (\<lambda>u s3. ret (HRef ?r) s3))"
        by (rule returns_and_then [OF loop]) simp
      then show "returns_from h (let spread = spread_into [(''documentId'', HStr documentId)]
                              (own_entries (heap s1) ?at);
                   entries = (if preserveOriginalId opts
                              then AList.update ''id'' ?id spread else spread)
               in and_then (alloc (HObject entries) s1) (\<lambda>result s2.
                    and_then (for_each_key ?f result (map fst entries) s2)
                      (\<lambda>u s3. ret result s3)))"
        unfolding Let_def alloc_eq and_then_Some_Inr entries_def [symmetric] s2_def [symmetric] .
    qed
    with True nest show ?thesis
      by (simp add: transform_Suc rd Let_def del: for_each_key.simps split del: if_split cong: if_cong)
  qed
qed

declare well_typed.simps(2) [simp del]

lemma alloc_fun:
  "alloc obj = (\<lambda>s. Some (Inr (HRef (length (heap s))), s \<lparr> heap := heap s @ [obj] \<rparr>))"
  by (rule ext) (simp add: alloc_eq)

text \<open>One modern item, given that its nested values are converted.\<close>

lemma returns_transformV5ItemToV4:
  assumes nested: "\<And>v s'. well_typed d h v \<Longrightarrow> extends h (heap s') \<Longrightarrow> primitive_ids (registry s')
        \<Longrightarrow> returns_from h (transformNestedData n v V5 V4 (opts \<lparr> depth := depth opts + 1 \<rparr>) s')"
    and wt: "well_typed (Suc d) h item" and ext: "extends h (heap s)"
    and prim: "primitive_ids (registry s)"
  shows "returns_from h (transformV5ItemToV4 (Suc n) item opts s)"
proof (cases "is_ref item \<and> h_truthy (h_get h item ''documentId'')")
  case False
  note rd = readings [OF wt ext]
  from False ext prim show ?thesis by (auto simp: transform_Suc rd)
next
  case True
  note rd = readings [OF wt ext]
  let ?id = "h_get h item ''id''"
  let ?doc = "h_get h item ''documentId''"
  from True have td: "h_truthy ?doc" by simp
  from True obtain a where a: "item = HRef a" by (cases item) simp_all
  from td a obtain kvs where kvs: "cell h a = HObject kvs"
    by (cases "cell h a") (simp_all add: h_get_def)
  have dkvs: "distinct (map fst kvs)"
    using wt kvs unfolding a by (rule well_typed_distinct)
  have oe: "own_entries h item = kvs"
    by (simp add: a own_entries_def kvs)
  define rest where "rest = rest_without [''documentId'', ''id''] kvs"
  define s1 where "s1 = s \<lparr> heap := heap s @ [HObject rest] \<rparr>"
  let ?r = "length (heap s)"
  let ?f = "\<lambda>v. transformNestedData n v V5 V4 (opts \<lparr> depth := depth opts + 1 \<rparr>)"
  have vals: "\<forall>kv \<in> set rest. well_typed d h (snd kv)"
  proof
    fix kv assume "kv \<in> set rest"
    then have "kv \<in> set (own_entries h item)" by (simp add: rest_def rest_without_def oe)
    with wt show "well_typed d h (snd kv)" by (rule well_typed_entries)
  qed
  have dk: "distinct (map fst rest)"
    using dkvs by (simp add: rest_def rest_without_def distinct_map_filter)
  have e1: "extends h (heap s1)"
    using ext by (simp add: s1_def extends_trans [OF _ extends_append])
  have c1: "cell (heap s1) ?r = HObject rest"
    by (simp add: s1_def cell_append_new)
  have loop: "returns_from h (for_each_key ?f (HRef ?r) (map fst rest) s1)"
  proof (rule returns_for_each_key [where P = "well_typed d h"])
    show "length h \<le> ?r" using ext by (rule extends_length)
    show "?r < length (heap s1)" by (simp add: s1_def)
    show "extends h (heap s1)" by (rule e1)
    show "primitive_ids (registry s1)" using prim by (simp add: s1_def)
    show "distinct (map fst rest)" by (rule dk)
    show "\<forall>k \<in> set (map fst rest). is_ref (h_get (heap s1) (HRef ?r) k)
            \<longrightarrow> well_typed d h (h_get (heap s1) (HRef ?r) k)"
      using c1 vals by (rule object_values)
    show "grows_from (heap s') (?f v s')" for v s'
      by (rule transform_grows) simp
    show "returns_from h (?f v s')"
      if "well_typed d h v" "extends h (heap s')" "primitive_ids (registry s')" for v s'
      using that by (rule nested)
  qed
  have "returns_from h (and_then (for_each_key ?f (HRef ?r) (map fst rest) s1)
      (\<lambda>u s2. and_then
          (if h_truthy ?id then ret ?id s2 else call_mapV5ToV4 ?doc (ctype opts) s2)
          (\<lambda>newId s3. alloc (HObject [(''id'', newId), (''attributes'', HRef ?r)]) s3)))"
  proof (rule returns_and_then [OF loop])
    fix u and s2 :: TState
    assume e2: "extends h (heap s2)" and p2: "primitive_ids (registry s2)"
    have "returns_from h (if h_truthy ?id then ret ?id s2 else call_mapV5ToV4 ?doc (ctype opts) s2)"
      using wt td e2 p2 by (rule returns_resolve_id)
    then show "returns_from h (and_then
          (if h_truthy ?id then ret ?id s2 else call_mapV5ToV4 ?doc (ctype opts) s2)
          (\<lambda>newId s3. alloc (HObject [(''id'', newId), (''attributes'', HRef ?r)]) s3))"
      by (rule returns_and_then) (rule returns_alloc)
  qed
  moreover have "transformV5ItemToV4 (Suc n) item opts s =
      and_then (for_each_key ?f (HRef ?r) (map fst rest) s1)
      (\<lambda>u s2. and_then
          (if h_truthy ?id then ret ?id s2 else call_mapV5ToV4 ?doc (ctype opts) s2)
          (\<lambda>newId s3. alloc (HObject [(''id'', newId), (''attributes'', HRef ?r)]) s3))"
    using True
    by (simp add: transform_Suc rd Let_def oe alloc_fun rest_def s1_def
          del: for_each_key.simps split del: if_split cong: if_cong)
  ultimately show ?thesis by simp
qed

lemma transform_returns:
  shows "well_typed d h data \<Longrightarrow> extends h (heap s) \<Longrightarrow> primitive_ids (registry s) \<Longrightarrow>
           4 * d + 3 \<le> n \<Longrightarrow> returns_from h (transform n data src tgt options s)"
    and "well_typed d h data \<Longrightarrow> extends h (heap s) \<Longrightarrow> primitive_ids (registry s) \<Longrightarrow>
           4 * d + 2 \<le> n \<Longrightarrow> returns_from h (transformV4ToV5 n data opts s)"
    and "well_typed d h data \<Longrightarrow> extends h (heap s) \<Longrightarrow> primitive_ids (registry s) \<Longrightarrow>
           4 * d + 1 \<le> n \<Longrightarrow> returns_from h (transformV4ItemToV5 n data opts s)"
    and "well_typed d h data \<Longrightarrow> extends h (heap s) \<Longrightarrow> primitive_ids (registry s) \<Longrightarrow>
           4 * d + 2 \<le> n \<Longrightarrow> returns_from h (transformV5ToV4 n data opts s)"
    and "well_typed d h data \<Longrightarrow> extends h (heap s) \<Longrightarrow> primitive_ids (registry s) \<Longrightarrow>
           4 * d + 1 \<le> n \<Longrightarrow> returns_from h (transformV5ItemToV4 n data opts s)"
    and "well_typed d h data \<Longrightarrow> extends h (heap s) \<Longrightarrow> primitive_ids (registry s) \<Longrightarrow>
           4 * d + 4 \<le> n \<Longrightarrow> returns_from h (transformNestedData n data src tgt opts s)"
    and "well_typed d h data \<Longrightarrow> extends h (heap s) \<Longrightarrow> primitive_ids (registry s) \<Longrightarrow>
           4 * d + 2 \<le> n \<Longrightarrow> returns_from h (transformRelationData n data src tgt opts s)"
proof (induction n arbitrary: d h s data src tgt options opts)
  case 0
  {
    case 1 then show ?case by simp
  next
    case 2 then show ?case by simp
  next
    case 3 then show ?case by simp
  next
    case 4 then show ?case by simp
  next
    case 5 then show ?case by simp
  next
    case 6 then show ?case by simp
  next
    case 7 then show ?case by simp
  }
next
  case (Suc n)
  {
    case 1
    let ?opts = "transform_defaults options"
    let ?s = "cache_add data s"
    from 1 have n: "4 * d + 2 \<le> n" by simp
    have e: "extends h (heap ?s)" and p: "primitive_ids (registry ?s)"
      using 1 by simp_all
    have "returns_from h (if src = V4 \<and> tgt = V5 then transformV4ToV5 n data ?opts ?s
                else if src = V5 \<and> tgt = V4 then transformV5ToV4 n data ?opts ?s
                else ret data ?s)"
      using Suc.IH(2) [OF 1(1) e p n] Suc.IH(4) [OF 1(1) e p n] e p by simp
    then have "returns_from h (try_finally
               (if src = V4 \<and> tgt = V5 then transformV4ToV5 n data ?opts ?s
                else if src = V5 \<and> tgt = V4 then transformV5ToV4 n data ?opts ?s
                else ret data ?s)
               (cache_delete data))"
      by (rule returns_try_finally) simp_all
    with 1 show ?case
      unfolding transform_Suc Let_def by (simp add: returns_alloc)
  next
    case 2
    note rd = readings [OF 2(1,2)]
    show ?case
    proof (cases "h_truthy data \<and> h_isArray h data")
      case True
      then obtain d' where d: "d = Suc d'"
        using 2(1) by (cases d; cases data) (simp_all add: h_isArray_def)
      have "returns_from h (array_map (\<lambda>item. transformV4ItemToV5 n item opts) (h_items h data) s)"
      proof (rule returns_array_map [OF _ 2(2,3)])
        fix x and s' :: TState
        assume x: "x \<in> set (h_items h data)" and s': "extends h (heap s')" "primitive_ids (registry s')"
        from 2(1) x have "well_typed d' h x" unfolding d by (rule well_typed_items)
        then show "returns_from h (transformV4ItemToV5 n x opts s')"
          using s' by (rule Suc.IH(3)) (use 2(4) d in simp)
      qed
      with True show ?thesis by (simp add: transform_Suc rd)
    next
      case False
      have "returns_from h (transformV4ItemToV5 n data opts s)"
        using 2(1-3) by (rule Suc.IH(3)) (use 2(4) in simp)
      with False 2(2,3) show ?thesis by (auto simp: transform_Suc rd)
    qed
  next
    case 3
    show ?case
    proof (cases "is_ref data")
      case False
      with 3 show ?thesis by (simp add: transform_Suc)
    next
      case True
      then obtain d' where d: "d = Suc d'"
        using 3(1) by (cases d) simp_all
      show ?thesis
      proof (rule returns_transformV4ItemToV5 [where d = d'])
        show "well_typed (Suc d') h data" using 3(1) d by simp
        show "extends h (heap s)" "primitive_ids (registry s)" by fact+
        show "returns_from h (transformNestedData n v V4 V5 (opts \<lparr> depth := depth opts + 1 \<rparr>) s')"
          if "well_typed d' h v" "extends h (heap s')" "primitive_ids (registry s')" for v s'
          using that by (rule Suc.IH(6)) (use 3(4) d in simp)
      qed
    qed
  next
    case 4
    note rd = readings [OF 4(1,2)]
    show ?case
    proof (cases "h_truthy data \<and> h_isArray h data")
      case True
      then obtain d' where d: "d = Suc d'"
        using 4(1) by (cases d; cases data) (simp_all add: h_isArray_def)
      have "returns_from h (array_map (\<lambda>item. transformV5ItemToV4 n item opts) (h_items h data) s)"
      proof (rule returns_array_map [OF _ 4(2,3)])
        fix x and s' :: TState
        assume x: "x \<in> set (h_items h data)" and s': "extends h (heap s')" "primitive_ids (registry s')"
        from 4(1) x have "well_typed d' h x" unfolding d by (rule well_typed_items)
        then show "returns_from h (transformV5ItemToV4 n x opts s')"
          using s' by (rule Suc.IH(5)) (use 4(4) d in simp)
      qed
      with True show ?thesis by (simp add: transform_Suc rd)
    next
      case False
      have "returns_from h (transformV5ItemToV4 n data opts s)"
        using 4(1-3) by (rule Suc.IH(5)) (use 4(4) in simp)
      with False 4(2,3) show ?thesis by (auto simp: transform_Suc rd)
    qed
  next
    case 5
    show ?case
    proof (cases "is_ref data")
      case False
      with 5 show ?thesis by (simp add: transform_Suc)
    next
      case True
      then obtain d' where d: "d = Suc d'"
        using 5(1) by (cases d) simp_all
      show ?thesis
      proof (rule returns_transformV5ItemToV4 [where d = d'])
        show "well_typed (Suc d') h data" using 5(1) d by simp
        show "extends h (heap s)" "primitive_ids (registry s)" by fact+
        show "returns_from h (transformNestedData n v V5 V4 (opts \<lparr> depth := depth opts + 1 \<rparr>) s')"
          if "well_typed d' h v" "extends h (heap s')" "primitive_ids (registry s')" for v s'
          using that by (rule Suc.IH(6)) (use 5(4) d in simp)
      qed
    qed
  next
    case 6
    note rd = readings [OF 6(1,2)]
    have rel: "returns_from h (transformRelationData n data src tgt opts s)"
      using 6(1-3) by (rule Suc.IH(7)) (use 6(4) in simp)
    have med: "returns_from h (transformMedia data src tgt s)"
      using 6(1-3) by (rule returns_transformMedia)
    have tr: "returns_from h (transform n data src tgt (as_options opts) s)"
      using 6(1-3) by (rule Suc.IH(1)) (use 6(4) in simp)
    have arr: "returns_from h (array_map (\<lambda>item. transformNestedData n item src tgt opts) (h_items h data) s)"
      if "h_isArray h data"
    proof -
      from that obtain d' where d: "d = Suc d'"
        using 6(1) by (cases d; cases data) (simp_all add: h_isArray_def)
      show ?thesis
      proof (rule returns_array_map [OF _ 6(2,3)])
        fix x and s' :: TState
        assume x: "x \<in> set (h_items h data)" and s': "extends h (heap s')" "primitive_ids (registry s')"
        from 6(1) x have "well_typed d' h x" unfolding d by (rule well_typed_items)
        then show "returns_from h (transformNestedData n x src tgt opts s')"
          using s' by (rule Suc.IH(6)) (use 6(4) d in simp)
      qed
    qed
    from rel med tr arr 6(2,3) show ?case
      by (simp add: transform_Suc rd)
  next
    case 7
    note rd = readings [OF 7(1,2)]
    let ?inner = "h_get h data ''data''"
    let ?rel = "opts \<lparr> ctype := ''relation'' \<rparr>"
    have wi: "well_typed d h ?inner" using 7(1) by (rule well_typed_child)
    note ri = readings [OF wi 7(2)]
    have items_of: "returns_from h (array_map (\<lambda>item. f n item ?rel) (h_items h x) s')"
      if x: "well_typed d h x" "h_isArray h x" and s': "extends h (heap s')" "primitive_ids (registry s')"
        and f: "\<And>d' v s''. well_typed d' h v \<Longrightarrow> extends h (heap s'') \<Longrightarrow> primitive_ids (registry s'')
                  \<Longrightarrow> 4 * d' + 1 \<le> n \<Longrightarrow> returns_from h (f n v ?rel s'')"
      for f x s'
    proof -
      from x obtain d' where d: "d = Suc d'"
        by (cases d; cases x) (simp_all add: h_isArray_def)
      show ?thesis
      proof (rule returns_array_map [OF _ s'])
        fix y and s'' :: TState
        assume y: "y \<in> set (h_items h x)" and s'': "extends h (heap s'')" "primitive_ids (registry s'')"
        from x(1) y have "well_typed d' h y" unfolding d by (rule well_typed_items)
        then show "returns_from h (f n y ?rel s'')"
          using s'' by (rule f) (use 7(4) d in simp)
      qed
    qed
    have i4: "returns_from h (transformV4ItemToV5 n v ?rel s')"
      if "well_typed d' h v" "extends h (heap s')" "primitive_ids (registry s')" "4 * d' + 1 \<le> n"
      for d' v s'
      using that by (rule Suc.IH(3))
    have i5: "returns_from h (transformV5ItemToV4 n v ?rel s')"
      if "well_typed d' h v" "extends h (heap s')" "primitive_ids (registry s')" "4 * d' + 1 \<le> n"
      for d' v s'
      using that by (rule Suc.IH(5))
    have n: "4 * d + 1 \<le> n" using 7(4) by simp
    have a4: "returns_from h (array_map (\<lambda>item. transformV4ItemToV5 n item ?rel) (h_items h ?inner) s)"
      if "h_isArray h ?inner"
      using wi that 7(2,3) i4 by (rule items_of)
    have s4: "returns_from h (transformV4ItemToV5 n ?inner ?rel s)"
      using wi 7(2,3) n by (rule i4)
    have a5: "returns_from h (and_then
               (array_map (\<lambda>item. transformV5ItemToV4 n item ?rel) (h_items h data) s)
               (\<lambda>items s1. alloc (HObject [(''data'', items)]) s1))"
      if "h_isArray h data"
    proof -
      have "returns_from h (array_map (\<lambda>item. transformV5ItemToV4 n item ?rel) (h_items h data) s)"
        using 7(1) that 7(2,3) i5 by (rule items_of)
      then show ?thesis by (rule returns_and_then) (rule returns_alloc)
    qed
    have s5: "returns_from h (and_then (transformV5ItemToV4 n data ?rel s)
               (\<lambda>item s1. alloc (HObject [(''data'', item)]) s1))"
    proof -
      have "returns_from h (transformV5ItemToV4 n data ?rel s)"
        using 7(1-3) n by (rule i5)
      then show ?thesis by (rule returns_and_then) (rule returns_alloc)
    qed
    from a4 s4 a5 s5 7(2,3) show ?case
      by (simp add: transform_Suc rd ri Let_def)
  }
qed

subsection \<open>The response envelope\<close>

lemma and_then_Inr_E:
  assumes "and_then m f = Some (Inr r, s')"
  obtains v s1 where "m = Some (Inr v, s1)" and "f v s1 = Some (Inr r, s')"
  using assms by (auto simp: and_then_def split: option.splits sum.splits prod.splits)

lemma h_get_same_cell:
  "valid_ref h x \<Longrightarrow> (\<And>a. a < length h \<Longrightarrow> cell h' a = cell h a) \<Longrightarrow> h_get h' x k = h_get h x k"
  by (cases x) (simp_all add: h_get_def valid_ref_def)

text \<open>The second half of transformResponse: the pagination block.\<close>

lemma pagination_step:
  assumes t: "t = length (heap s0)" "t < length (heap s2)"
    and ct: "cell (heap s2) t = HObject kvs'"
    and old: "\<And>a. a < t \<Longrightarrow> cell (heap s2) a = cell (heap s0) a"
    and meta: "map_of kvs' ''meta'' = Some (HRef m)" "m < t" "cell (heap s0) m = HObject mkvs"
    and pag: "map_of mkvs ''pagination'' = Some pg" "h_truthy pg" "valid_ref (heap s0) pg"
    and run: "(let meta = h_get (heap s2) (HRef t) ''meta'';
                  pagination = h_get (heap s2) meta ''pagination''
              in if h_truthy pagination
                 then and_then (transformPagination pagination s2)
                        (\<lambda>p s3. ret (HRef t) (assign meta ''pagination'' p s3))
                 else ret (HRef t) s2) = Some (Inr res, s')"
  shows "res = HRef t \<and> length (heap s2) < length (heap s')
     \<and> cell (heap s') m = HObject (AList.update ''pagination'' (HRef (length (heap s2))) mkvs)
     \<and> cell (heap s') (length (heap s2)) = normalized_pagination (heap s0) pg
     \<and> (\<forall>a < length (heap s2). a \<noteq> m \<longrightarrow> cell (heap s') a = cell (heap s2) a)"
proof -
  have gm: "h_get (heap s2) (HRef t) ''meta'' = HRef m"
    by (simp add: h_get_def ct meta(1))
  have cm: "cell (heap s2) m = HObject mkvs"
    using old [OF meta(2)] meta(3) by simp
  have gp: "h_get (heap s2) (HRef m) ''pagination'' = pg"
    by (simp add: h_get_def cm pag(1))
  have fields: "h_get (heap s2) pg k = h_get (heap s0) pg k" for k
    by (rule h_get_same_cell [OF pag(3)]) (simp add: old t(1))
  let ?P = "normalized_pagination (heap s0) pg"
  let ?s3 = "s2 \<lparr> heap := heap s2 @ [?P] \<rparr>"
  have tp: "transformPagination pg s2 = Some (Inr (HRef (length (heap s2))), ?s3)"
    using pag(2) by (simp add: transformPagination_def alloc_def ret_def fields normalized_pagination_def)
  have m2: "m < length (heap s2)" using meta(2) t(2) by simp
  have cm3: "cell (heap s2 @ [?P]) m = HObject mkvs"
    using cm m2 by (simp add: cell_append_old)
  from run have s': "s' = assign (HRef m) ''pagination'' (HRef (length (heap s2))) ?s3"
    and res: "res = HRef t"
    by (simp_all add: gm gp pag(2) tp ret_def)
  have hs': "heap s' = (heap s2 @ [?P])[m := HObject (AList.update ''pagination'' (HRef (length (heap s2))) mkvs)]"
    unfolding s' by (simp add: set_prop_def cm3)
  show ?thesis
    using m2 res
    by (auto simp: hs' cell_update_same cell_update_other cell_append_new cell_append_old)
qed


text \<open>The first half: the shallow copy and the transformation of \<open>data\<close>.\<close>

lemma data_step:
  assumes e: "cell (heap s) e = HObject kvs" "distinct (map fst kvs)"
    and t: "t = length (heap s)"
    and s1: "s1 = s \<lparr> heap := heap s @ [HObject kvs] \<rparr>"
    and run: "(if h_truthy (h_get (heap s1) (HRef t) ''data'')
               then and_then (transform n (h_get (heap s1) (HRef t) ''data'') src tgt options s1)
                      (\<lambda>d s2. ret () (assign (HRef t) ''data'' d s2))
               else ret () s1) = Some (Inr u, s2)"
  shows "\<exists>kvs'. t < length (heap s2) \<and> cell (heap s2) t = HObject kvs'
     \<and> (\<forall>a < t. cell (heap s2) a = cell (heap s) a)
     \<and> map fst kvs' = map fst kvs \<and> (\<forall>k. k \<noteq> ''data'' \<longrightarrow> map_of kvs' k = map_of kvs k)"
proof (cases "h_truthy (h_get (heap s1) (HRef t) ''data'')")
  case False
  with run have "s2 = s1" by (simp add: ret_def)
  then show ?thesis
    by (auto simp: s1 t cell_append_new cell_append_old)
next
  case True
  with run obtain d s2' where
    tr: "transform n (h_get (heap s1) (HRef t) ''data'') src tgt options s1 = Some (Inr d, s2')"
    and s2: "s2 = assign (HRef t) ''data'' d s2'"
    by (auto simp: ret_def elim!: and_then_Inr_E)
  from transform_grows(1) [of "heap s1" s1 n "h_get (heap s1) (HRef t) ''data''" src tgt options] tr
  have ext: "extends (heap s1) (heap s2')" by simp
  have lt: "t < length (heap s1)" by (simp add: s1 t)
  from extends_length [OF ext] lt have lt': "t < length (heap s2')" by simp
  have ct: "cell (heap s2') t = HObject kvs"
    using extends_cell [OF ext lt] by (simp add: s1 t cell_append_new)
  have hs2: "heap s2 = (heap s2')[t := HObject (AList.update ''data'' d kvs)]"
    unfolding s2 by (simp add: set_prop_def ct)
  from True have "map_of kvs ''data'' \<noteq> None"
    by (auto simp: h_get_def s1 t cell_append_new split: option.splits)
  then have dk: "''data'' \<in> fst ` set kvs"
    by (simp add: map_of_eq_None_iff)
  have old: "cell (heap s2) a = cell (heap s) a" if "a < t" for a
  proof -
    from that have "a < length (heap s1)" by (simp add: s1 t)
    from extends_cell [OF ext this] that show ?thesis
      by (simp add: hs2 cell_update_other s1 t cell_append_old)
  qed
  show ?thesis
    using lt' old dk
    by (auto simp: hs2 cell_update_same map_fst_update map_of_update_other)
qed

lemma transformResponse_frame:
  assumes ne: "src \<noteq> tgt"
    and e: "cell (heap s) e = HObject kvs" "distinct (map fst kvs)"
    and meta: "map_of kvs ''meta'' = Some (HRef m)" "m < length (heap s)"
      "cell (heap s) m = HObject mkvs"
    and pag: "map_of mkvs ''pagination'' = Some pg" "h_truthy pg" "valid_ref (heap s) pg"
    and run: "transformResponse fuel (HRef e) src tgt options s = Some (Inr res, s')"
  shows "\<exists>p kvs'. res = HRef (length (heap s)) \<and> length (heap s) < p \<and> p < length (heap s')
     \<and> cell (heap s') m = HObject (AList.update ''pagination'' (HRef p) mkvs)
     \<and> cell (heap s') p = normalized_pagination (heap s) pg
     \<and> (\<forall>a < length (heap s). a \<noteq> m \<longrightarrow> cell (heap s') a = cell (heap s) a)
     \<and> cell (heap s') (length (heap s)) = HObject kvs'
     \<and> map fst kvs' = map fst kvs
     \<and> (\<forall>k. k \<noteq> ''data'' \<longrightarrow> map_of kvs' k = map_of kvs k)"
proof -
  from run obtain n where fuel: "fuel = Suc n"
    by (cases fuel) (simp_all add: transformResponse_def)
  let ?t = "length (heap s)"
  define s1 where "s1 = s \<lparr> heap := heap s @ [HObject kvs] \<rparr>"
  have sp: "spread_into [] (own_entries (heap s) (HRef e)) = kvs"
    using spread_into_fresh [of kvs "[]"] e by (simp add: own_entries_def)
  have al: "alloc (HObject kvs) s = Some (Inr (HRef ?t), s1)"
    by (simp add: alloc_eq s1_def)
  from run ne obtain u s2 where
    first: "(if h_truthy (h_get (heap s1) (HRef ?t) ''data'')
             then and_then (transform n (h_get (heap s1) (HRef ?t) ''data'') src tgt options s1)
                    (\<lambda>d s2. ret () (assign (HRef ?t) ''data'' d s2))
             else ret () s1) = Some (Inr u, s2)"
    and second: "(let meta = h_get (heap s2) (HRef ?t) ''meta'';
                  pagination = h_get (heap s2) meta ''pagination''
              in if h_truthy pagination
                 then and_then (transformPagination pagination s2)
                        (\<lambda>p s3. ret (HRef ?t) (assign meta ''pagination'' p s3))
                 else ret (HRef ?t) s2) = Some (Inr res, s')"
    unfolding transformResponse_def fuel
    by (simp add: sp al del: assign.simps) (auto elim!: and_then_Inr_E simp del: assign.simps)
  from data_step [OF e refl s1_def first] obtain kvs' where
    k: "?t < length (heap s2)" "cell (heap s2) ?t = HObject kvs'"
      "\<And>a. a < ?t \<Longrightarrow> cell (heap s2) a = cell (heap s) a"
      "map fst kvs' = map fst kvs" "\<And>k. k \<noteq> ''data'' \<Longrightarrow> map_of kvs' k = map_of kvs k"
    by blast
  have meta': "map_of kvs' ''meta'' = Some (HRef m)"
    using k(5) [of "''meta''"] meta(1) by simp
  from pagination_step [OF refl k(1) k(2) k(3) meta' meta(2) meta(3) pag second]
  have r: "res = HRef ?t" "length (heap s2) < length (heap s')"
    "cell (heap s') m = HObject (AList.update ''pagination'' (HRef (length (heap s2))) mkvs)"
    "cell (heap s') (length (heap s2)) = normalized_pagination (heap s) pg"
    "\<And>a. a < length (heap s2) \<Longrightarrow> a \<noteq> m \<Longrightarrow> cell (heap s') a = cell (heap s2) a"
    by auto
  have "cell (heap s') ?t = HObject kvs'"
    using r(5) [of ?t] k(1) k(2) meta(2) by simp
  moreover have "\<forall>a < ?t. a \<noteq> m \<longrightarrow> cell (heap s') a = cell (heap s) a"
    using r(5) k(1) k(3) by simp
  ultimately show ?thesis
    using r(1-4) k(1) k(4) k(5) by blast
qed

text \<open>The call returns when the data of the envelope is well-typed.\<close>

lemma returns_from_returned: "returns_from h out \<Longrightarrow> returned out"
  by (erule returns_fromE) (simp add: returned_def)

lemma transformResponse_returns:
  assumes ne: "src \<noteq> tgt"
    and e: "cell (heap s) e = HObject kvs" "distinct (map fst kvs)"
    and wt: "well_typed d (heap s) (h_get (heap s) (HRef e) ''data'')"
    and prim: "primitive_ids (registry s)"
    and fuel: "4 * d + 4 \<le> fuel"
  shows "returned (transformResponse fuel (HRef e) src tgt options s)"
proof -
  from fuel obtain n where n: "fuel = Suc n" and dn: "4 * d + 3 \<le> n"
    by (cases fuel) simp_all
  let ?t = "length (heap s)"
  let ?data = "h_get (heap s) (HRef e) ''data''"
  define s1 where "s1 = s \<lparr> heap := heap s @ [HObject kvs] \<rparr>"
  have sp: "spread_into [] (own_entries (heap s) (HRef e)) = kvs"
    using spread_into_fresh [of kvs "[]"] e by (simp add: own_entries_def)
  have e1: "extends (heap s) (heap s1)" and p1: "primitive_ids (registry s1)"
    using prim by (simp_all add: s1_def)
  have gd: "h_get (heap s1) (HRef ?t) ''data'' = ?data"
    by (simp add: h_get_def s1_def cell_append_new e)
  define second where "second = (\<lambda>(u :: unit) s2.
      let meta = h_get (heap s2) (HRef ?t) ''meta'';
          pagination = h_get (heap s2) meta ''pagination''
      in if h_truthy pagination
         then and_then (transformPagination pagination s2)
                (\<lambda>p s3. ret (HRef ?t) (assign meta ''pagination'' p s3))
         else ret (HRef ?t) s2)"
  have sec: "returned (second u s2)" for u s2
    by (simp add: second_def Let_def transformPagination_def alloc_eq returned_def ret_def)
  define first where "first =
      (if h_truthy ?data
       then and_then (transform n ?data src tgt options s1)
              (\<lambda>d s2. ret () (assign (HRef ?t) ''data'' d s2))
       else ret () s1)"
  have "\<exists>u s2. first = Some (Inr u, s2)"
  proof (cases "h_truthy ?data")
    case False
    then show ?thesis by (simp add: first_def ret_def)
  next
    case True
    have "returns_from (heap s) (transform n ?data src tgt options s1)"
      using wt e1 p1 dn by (rule transform_returns)
    then obtain v s2 where "transform n ?data src tgt options s1 = Some (Inr v, s2)"
      by (rule returns_fromE)
    with True show ?thesis by (simp add: first_def ret_def)
  qed
  then obtain u s2 where f: "first = Some (Inr u, s2)" by blast
  have "transformResponse fuel (HRef e) src tgt options s = and_then first second"
    using ne
    by (simp add: transformResponse_def n sp alloc_eq gd first_def second_def s1_def [symmetric]
          del: assign.simps cong: if_cong)
  with f sec [of u s2] show ?thesis by simp
qed

subsection \<open>Items with primitive attributes\<close>

lemma for_each_key_prims:
  "\<forall>k \<in> set keys. \<not> is_ref (h_get (heap s) obj k) \<Longrightarrow> for_each_key f obj keys s = ret () s"
  by (induction keys) (simp_all add: Let_def)

lemma generateDocumentId_nonempty: "generateDocumentId rd v ct \<noteq> []"
  by (simp add: generateDocumentId_def Let_def)

lemma mapV4ToV5_nonempty:
  "roundtrip_ready reg ct j preserve \<Longrightarrow> fst (mapV4ToV5 rd j ct reg) \<noteq> []"
  by (auto simp: mapV4ToV5_def roundtrip_ready_def Let_def generateDocumentId_nonempty
           split: option.splits)

lemma map_of_prims_not_ref:
  "\<forall>kv \<in> set al. \<not> is_ref (snd kv) \<Longrightarrow> \<not> is_ref (case map_of al k of Some v \<Rightarrow> v | None \<Rightarrow> HUndefined)"
  by (auto split: option.splits dest!: map_of_SomeD)

lemma rest_without_keep: "fst ` set al \<inter> set ks = {} \<Longrightarrow> rest_without ks al = al"
  unfolding rest_without_def by (induction al) auto

text \<open>The forward conversion of an item with primitive attributes.\<close>

lemma transformV4ItemToV5_flat_attributes:
  assumes item: "cell (heap s) a = HObject kvs"
    and idv: "map_of kvs ''id'' = Some idv" "to_js idv = Some j" "h_truthy idv"
    and at: "map_of kvs ''attributes'' = Some (HRef b)" "cell (heap s) b = HObject attrs"
    and prim: "\<forall>kv \<in> set attrs. \<not> is_ref (snd kv)"
    and keys: "distinct (map fst attrs)" "''id'' \<notin> fst ` set attrs"
      "''documentId'' \<notin> fst ` set attrs"
  shows "transformV4ItemToV5 (Suc n) (HRef a) opts s =
     Some (Inr (HRef (length (heap s))),
       s \<lparr> registry := snd (mapV4ToV5 (clock s (tick s)) j (ctype opts) (registry s)),
           tick := tick s + 1,
           heap := heap s @
             [HObject ((''documentId'', HStr (fst (mapV4ToV5 (clock s (tick s)) j (ctype opts) (registry s))))
                # attrs @ (if preserveOriginalId opts then [(''id'', idv)] else []))] \<rparr>)"
proof -
  let ?d = "fst (mapV4ToV5 (clock s (tick s)) j (ctype opts) (registry s))"
  let ?s1 = "s \<lparr> registry := snd (mapV4ToV5 (clock s (tick s)) j (ctype opts) (registry s)),
                 tick := tick s + 1 \<rparr>"
  let ?entries = "(''documentId'', HStr ?d) # attrs @ (if preserveOriginalId opts then [(''id'', idv)] else [])"
  have call: "call_mapV4ToV5 idv (ctype opts) s = Some (Inr ?d, ?s1)"
    by (simp add: call_mapV4ToV5_def idv(2) ret_def split: prod.splits)
  have gid: "h_get (heap s) (HRef a) ''id'' = idv"
    and gat: "h_get (heap s) (HRef a) ''attributes'' = HRef b"
    by (simp_all add: h_get_def item idv(1) at(1))
  have oe: "own_entries (heap s) (HRef b) = attrs"
    by (simp add: own_entries_def at(2))
  have sp: "spread_into [(''documentId'', HStr ?d)] attrs = (''documentId'', HStr ?d) # attrs"
    using spread_into_fresh [of attrs "[(''documentId'', HStr ?d)]"] keys by simp
  have up: "AList.update ''id'' idv attrs = attrs @ [(''id'', idv)]"
    using update_fresh [of "''id''" attrs idv] keys(2) by simp
  have ent: "(if preserveOriginalId opts
              then AList.update ''id'' idv (spread_into [(''documentId'', HStr ?d)] attrs)
              else spread_into [(''documentId'', HStr ?d)] attrs) = ?entries"
    by (simp add: sp up)
  define entries where "entries = ?entries"
  define s2 where "s2 = ?s1 \<lparr> heap := heap s @ [HObject entries] \<rparr>"
  let ?f = "\<lambda>v. transformNestedData n v V4 V5 (opts \<lparr> depth := depth opts + 1 \<rparr>)"
  have vals: "\<forall>k \<in> set (map fst entries). \<not> is_ref (h_get (heap s2) (HRef (length (heap s))) k)"
  proof
    fix k assume "k \<in> set (map fst entries)"
    have "\<forall>kv \<in> set entries. \<not> is_ref (snd kv)"
      using prim idv(2) by (cases idv) (auto simp: entries_def)
    from map_of_prims_not_ref [OF this, of k]
    show "\<not> is_ref (h_get (heap s2) (HRef (length (heap s))) k)"
      by (simp add: h_get_def cell_append_new s2_def)
  qed
  have loop: "for_each_key ?f (HRef (length (heap s))) (map fst entries) s2 = ret () s2"
    by (rule for_each_key_prims [OF vals])
  have step: "transformV4ItemToV5 (Suc n) (HRef a) opts s =
      and_then (for_each_key ?f (HRef (length (heap s))) (map fst entries) s2)
        (\<lambda>u s3. ret (HRef (length (heap s))) s3)"
    unfolding transform_Suc(3)
    by (simp add: gid gat idv(3) call oe ent alloc_eq Let_def entries_def s2_def
          del: for_each_key.simps split del: if_split cong: if_cong)
  show ?thesis
    unfolding step loop by (simp add: ret_def s2_def entries_def)
qed


lemma h_isArray_object: "cell h a = HObject kvs \<Longrightarrow> \<not> h_isArray h (HRef a)"
  by (simp add: h_isArray_def)

subsection \<open>The round trip of an item with plain attributes\<close>

lemma update_same: "map_of al k = Some v \<Longrightarrow> AList.update k v al = al"
  by (induction al) (auto split: if_splits)

lemma assign_same:
  assumes "is_ref (h_get (heap s) obj k)"
  shows "assign obj k (h_get (heap s) obj k) s = s"
proof -
  from assms obtain r where r: "obj = HRef r"
    by (cases obj) (simp_all add: h_get_def)
  from assms have "h_get (heap s) (HRef r) k \<noteq> HUndefined"
    unfolding r by auto
  with h_get_defined [OF refl this] obtain kvs where
    kvs: "cell (heap s) r = HObject kvs" "map_of kvs k = Some (h_get (heap s) (HRef r) k)"
    by blast
  from kvs(2) have "kvs \<noteq> []" by auto
  with kvs(1) have lt: "r < length (heap s)" and nth: "heap s ! r = HObject kvs"
    by (auto simp: cell_def split: if_splits)
  from nth have "(heap s)[r := HObject kvs] = heap s"
    by (metis list_update_id)
  with update_same [OF kvs(2)] show ?thesis
    by (simp add: r set_prop_def kvs(1))
qed

lemma for_each_key_unchanged:
  assumes "\<And>k. k \<in> set keys \<Longrightarrow> is_ref (h_get (heap s) obj k) \<Longrightarrow>
             f (h_get (heap s) obj k) s = ret (h_get (heap s) obj k) s"
  shows "for_each_key f obj keys s = ret () s"
  using assms
proof (induction keys)
  case Nil
  then show ?case by simp
next
  case (Cons k keys)
  have IH: "for_each_key f obj keys s = ret () s"
    by (rule Cons.IH) (use Cons.prems in simp)
  show ?case
  proof (cases "is_ref (h_get (heap s) obj k)")
    case False
    with IH show ?thesis by (simp add: Let_def)
  next
    case True
    with Cons.prems [of k] have "f (h_get (heap s) obj k) s = ret (h_get (heap s) obj k) s"
      by simp
    with True IH show ?thesis
      by (simp add: Let_def ret_def assign_same del: assign.simps)
  qed
qed

lemma cache_add_delete_same:
  "\<not> in_cache s v \<Longrightarrow> cache_delete v (cache_add v s) = s"
  by (cases v) (simp_all add: List.insert_def)

text \<open>A plain value comes back from \<open>transformNestedData\<close> as it is, in both directions.\<close>

lemma transformNestedData_plain:
  assumes pv: "plain_value h v" and ref: "is_ref v" and ext: "extends h (heap s)"
    and cache: "\<not> in_cache s v"
    and dir: "src = V4 \<and> tgt = V5 \<or> src = V5 \<and> tgt = V4"
  shows "transformNestedData (Suc (Suc (Suc (Suc n)))) v src tgt opts s = ret v s"
proof -
  from pv ref have vr: "valid_ref h v" and na: "\<not> h_isArray h v"
    and nr: "\<not> isRelationData h v V4" and nd: "\<not> h_truthy (h_get h v ''documentId'')"
    and mi: "if isMediaData h v then \<not> h_truthy (h_get h v ''attributes'')
             else \<not> h_truthy (h_get h v ''id'')"
    by (simp_all add: plain_value_def)
  have g: "h_get (heap s') v k = h_get h v k" if "heap s' = heap s" for s' :: TState and k
    using ext vr that by (simp add: h_get_extends)
  have a: "h_isArray (heap s') v = h_isArray h v" if "heap s' = heap s" for s' :: TState
    using ext vr that by (simp add: h_isArray_extends)
  have rl: "isRelationData (heap s) v fmt = isRelationData h v fmt" for fmt
    using ext vr by (rule isRelationData_extends)
  have md: "isMediaData (heap s) v = isMediaData h v"
    using ext vr by (rule isMediaData_extends)
  have tv: "h_truthy v" using ref by (cases v) simp_all
  let ?o = "transform_defaults (as_options opts)"
  have tr: "transform (Suc (Suc (Suc n))) v src tgt (as_options opts) s = ret v s"
    if "\<not> isMediaData h v"
  proof -
    from that mi have ni: "\<not> h_truthy (h_get h v ''id'')" by simp
    have i4: "transformV4ItemToV5 (Suc n) v ?o (cache_add v s) = ret v (cache_add v s)"
      using ref ni by (simp add: transform_Suc g)
    have i5: "transformV5ItemToV4 (Suc n) v ?o (cache_add v s) = ret v (cache_add v s)"
      using ref nd by (simp add: transform_Suc g)
    have v4: "transformV4ToV5 (Suc (Suc n)) v ?o (cache_add v s) = ret v (cache_add v s)"
      using tv na i4 by (simp add: transform_Suc(2) a)
    have v5: "transformV5ToV4 (Suc (Suc n)) v ?o (cache_add v s) = ret v (cache_add v s)"
      using tv na i5 by (simp add: transform_Suc(4) a)
    from dir cache v4 v5 show ?thesis
      unfolding transform_Suc(1) Let_def
      by (auto simp: ret_def cache_add_delete_same)
  qed
  show ?thesis
  proof (cases "src = V4")
    case True
    with dir have st: "src = V4" "tgt = V5" by auto
    show ?thesis
    proof (cases "isMediaData h v")
      case True
      with mi have "\<not> h_truthy (h_get h v ''attributes'')" by simp
      then have "transformMedia v V4 V5 s = ret v s"
        by (simp add: transformMedia_def transformV4MediaToV5_def g)
      with True tv nr show ?thesis
        unfolding st transform_Suc(6) by (simp add: rl md)
    next
      case False
      with tr tv nr na ref show ?thesis
        unfolding st transform_Suc(6) by (simp add: rl md a)
    qed
  next
    case False
    with dir have st: "src = V5" "tgt = V4" by auto
    show ?thesis
    proof (cases "isRelationData h v V5")
      case True
      have "transformRelationData (Suc (Suc (Suc n))) v V5 V4 opts s = ret v s"
        using tv na nd by (simp add: transform_Suc(7) g a Let_def)
      with True tv show ?thesis
        unfolding st transform_Suc(6) by (simp add: rl)
    next
      case nrel: False
      show ?thesis
      proof (cases "isMediaData h v")
        case True
        from nd have "transformMedia v V5 V4 s = ret v s"
          by (simp add: transformMedia_def transformV5MediaToV4_def g)
        with True tv nrel show ?thesis
          unfolding st transform_Suc(6) by (simp add: rl md)
      next
        case False
        with tr tv nrel na ref show ?thesis
          unfolding st transform_Suc(6) by (simp add: rl md a)
      qed
    qed
  qed
qed

lemma entry_value:
  assumes "cell (heap s) r = HObject entries" and "is_ref (h_get (heap s) (HRef r) k)"
  shows "(k, h_get (heap s) (HRef r) k) \<in> set entries"
  using assms by (cases "map_of entries k") (auto simp: h_get_def dest: map_of_SomeD)

text \<open>The forward conversion of an item whose attributes are plain values.\<close>

lemma transformV4ItemToV5_plain_attributes:
  assumes item: "cell (heap s) a = HObject kvs"
    and idv: "map_of kvs ''id'' = Some idv" "to_js idv = Some j" "h_truthy idv"
    and at: "map_of kvs ''attributes'' = Some (HRef b)" "cell (heap s) b = HObject attrs"
    and conv: "convertible_attributes (heap s) attrs"
    and cache: "\<forall>kv \<in> set attrs. \<not> in_cache s (snd kv)"
    and fuel: "4 \<le> n"
  shows "transformV4ItemToV5 (Suc n) (HRef a) opts s =
     Some (Inr (HRef (length (heap s))),
       s \<lparr> registry := snd (mapV4ToV5 (clock s (tick s)) j (ctype opts) (registry s)),
           tick := tick s + 1,
           heap := heap s @
             [HObject ((''documentId'', HStr (fst (mapV4ToV5 (clock s (tick s)) j (ctype opts) (registry s))))
                # attrs @ (if preserveOriginalId opts then [(''id'', idv)] else []))] \<rparr>)"
proof -
  from conv have plain: "\<forall>kv \<in> set attrs. plain_value (heap s) (snd kv)"
    and keys: "distinct (map fst attrs)" "''id'' \<notin> fst ` set attrs"
      "''documentId'' \<notin> fst ` set attrs"
    by (simp_all add: convertible_attributes_def list_all_iff)
  define m where "m = n - 4"
  from fuel have m: "n = Suc (Suc (Suc (Suc m)))"
    unfolding m_def by arith
  let ?d = "fst (mapV4ToV5 (clock s (tick s)) j (ctype opts) (registry s))"
  let ?s1 = "s \<lparr> registry := snd (mapV4ToV5 (clock s (tick s)) j (ctype opts) (registry s)),
                 tick := tick s + 1 \<rparr>"
  let ?entries = "(''documentId'', HStr ?d) # attrs @ (if preserveOriginalId opts then [(''id'', idv)] else [])"
  have call: "call_mapV4ToV5 idv (ctype opts) s = Some (Inr ?d, ?s1)"
    by (simp add: call_mapV4ToV5_def idv(2) ret_def split: prod.splits)
  have gid: "h_get (heap s) (HRef a) ''id'' = idv"
    and gat: "h_get (heap s) (HRef a) ''attributes'' = HRef b"
    by (simp_all add: h_get_def item idv(1) at(1))
  have oe: "own_entries (heap s) (HRef b) = attrs"
    by (simp add: own_entries_def at(2))
  have sp: "spread_into [(''documentId'', HStr ?d)] attrs = (''documentId'', HStr ?d) # attrs"
    using spread_into_fresh [of attrs "[(''documentId'', HStr ?d)]"] keys by simp
  have up: "AList.update ''id'' idv attrs = attrs @ [(''id'', idv)]"
    using update_fresh [of "''id''" attrs idv] keys(2) by simp
  have ent: "(if preserveOriginalId opts
              then AList.update ''id'' idv (spread_into [(''documentId'', HStr ?d)] attrs)
              else spread_into [(''documentId'', HStr ?d)] attrs) = ?entries"
    by (simp add: sp up)
  define entries where "entries = ?entries"
  define s2 where "s2 = ?s1 \<lparr> heap := heap s @ [HObject entries] \<rparr>"
  let ?t = "length (heap s)"
  let ?f = "\<lambda>v. transformNestedData n v V4 V5 (opts \<lparr> depth := depth opts + 1 \<rparr>)"
  have c2: "cell (heap s2) ?t = HObject entries"
    by (simp add: s2_def cell_append_new)
  have e2: "extends (heap s) (heap s2)"
    by (simp add: s2_def)
  have idp: "\<not> is_ref idv" using idv(2) by (cases idv) simp_all
  have loop: "for_each_key ?f (HRef ?t) (map fst entries) s2 = ret () s2"
  proof (rule for_each_key_unchanged)
    fix k
    let ?v = "h_get (heap s2) (HRef ?t) k"
    assume r: "is_ref ?v"
    from entry_value [OF c2 r] have "(k, ?v) \<in> set entries" .
    with r idp have "(k, ?v) \<in> set attrs"
      by (auto simp: entries_def split: if_splits)
    with plain cache have pv: "plain_value (heap s) ?v" and nc: "\<not> in_cache s ?v"
      by auto
    from nc have nc2: "\<not> in_cache s2 ?v"
      by (cases ?v) (simp_all add: s2_def)
    show "?f ?v s2 = ret ?v s2"
      unfolding m using pv r e2 nc2 by (rule transformNestedData_plain) simp
  qed
  have step: "transformV4ItemToV5 (Suc n) (HRef a) opts s =
      and_then (for_each_key ?f (HRef ?t) (map fst entries) s2)
        (\<lambda>u s3. ret (HRef ?t) s3)"
    unfolding transform_Suc(3)
    by (simp add: gid gat idv(3) call oe ent alloc_eq Let_def entries_def s2_def
          del: for_each_key.simps split del: if_split cong: if_cong)
  show ?thesis
    unfolding step loop by (simp add: ret_def s2_def entries_def)
qed

text \<open>The backward conversion of the flat item that the forward conversion built.\<close>

lemma transformV5ItemToV4_plain_item:
  assumes item: "cell (heap s) t = HObject ((''documentId'', HStr d) # attrs @ idpart)"
    and d: "d \<noteq> []"
    and idpart: "idpart = [(''id'', idv)] \<and> h_truthy idv
       \<or> idpart = [] \<and> mapV5ToV4 (JStr d) (ctype opts) (registry s) = Inr j \<and> of_js j = Some idv"
    and ext: "extends h (heap s)"
    and conv: "convertible_attributes h attrs"
    and cache: "\<forall>kv \<in> set attrs. \<not> in_cache s (snd kv)"
    and fuel: "4 \<le> n"
  shows "transformV5ItemToV4 (Suc n) (HRef t) opts s =
     Some (Inr (HRef (Suc (length (heap s)))),
       s \<lparr> heap := heap s @
             [HObject attrs,
              HObject [(''id'', idv), (''attributes'', HRef (length (heap s)))]] \<rparr>)"
proof -
  from conv have plain: "\<forall>kv \<in> set attrs. plain_value h (snd kv)"
    and keys: "''id'' \<notin> fst ` set attrs" "''documentId'' \<notin> fst ` set attrs"
    by (simp_all add: convertible_attributes_def list_all_iff)
  define m where "m = n - 4"
  from fuel have m: "n = Suc (Suc (Suc (Suc m)))"
    unfolding m_def by arith
  let ?entries = "(''documentId'', HStr d) # attrs @ idpart"
  have gdoc: "h_get (heap s) (HRef t) ''documentId'' = HStr d"
    by (simp add: h_get_def item)
  have ma: "map_of attrs ''id'' = None"
    using keys(1) by (simp add: map_of_eq_None_iff)
  have gid: "h_get (heap s) (HRef t) ''id'' = (if idpart = [] then HUndefined else idv)"
    using idpart by (auto simp: h_get_def item map_add_def ma)
  have oe: "own_entries (heap s) (HRef t) = ?entries"
    by (simp add: own_entries_def item)
  have rest: "rest_without [''documentId'', ''id''] ?entries = attrs"
    using idpart keys rest_without_keep [of attrs "[''documentId'', ''id'']"]
    by (auto simp: rest_without_def)
  define s1 where "s1 = s \<lparr> heap := heap s @ [HObject attrs] \<rparr>"
  let ?r = "length (heap s)"
  let ?f = "\<lambda>v. transformNestedData n v V5 V4 (opts \<lparr> depth := depth opts + 1 \<rparr>)"
  have c1: "cell (heap s1) ?r = HObject attrs"
    by (simp add: s1_def cell_append_new)
  have e1: "extends h (heap s1)"
    using ext by (simp add: s1_def extends_trans [OF _ extends_append])
  have loop: "for_each_key ?f (HRef ?r) (map fst attrs) s1 = ret () s1"
  proof (rule for_each_key_unchanged)
    fix k
    let ?v = "h_get (heap s1) (HRef ?r) k"
    assume r: "is_ref ?v"
    from entry_value [OF c1 r] have "(k, ?v) \<in> set attrs" .
    with plain cache have pv: "plain_value h ?v" and nc: "\<not> in_cache s ?v"
      by auto
    from nc have nc1: "\<not> in_cache s1 ?v"
      by (cases ?v) (simp_all add: s1_def)
    show "?f ?v s1 = ret ?v s1"
      unfolding m using pv r e1 nc1 by (rule transformNestedData_plain) simp
  qed
  have newid: "(if h_truthy (if idpart = [] then HUndefined else idv) then ret (if idpart = [] then HUndefined else idv) s1
       else call_mapV5ToV4 (HStr d) (ctype opts) s1) = ret idv s1"
    using idpart by (auto simp: call_mapV5ToV4_def s1_def)
  have step: "transformV5ItemToV4 (Suc n) (HRef t) opts s =
      and_then (for_each_key ?f (HRef ?r) (map fst attrs) s1)
        (\<lambda>u s2. and_then
            (if h_truthy (if idpart = [] then HUndefined else idv) then ret (if idpart = [] then HUndefined else idv) s2
             else call_mapV5ToV4 (HStr d) (ctype opts) s2)
            (\<lambda>newId. alloc (HObject [(''id'', newId), (''attributes'', HRef (length (heap s)))])))"
    unfolding transform_Suc(5)
    by (simp add: gdoc gid d oe rest alloc_eq Let_def s1_def
          del: for_each_key.simps split del: if_split cong: if_cong)
  show ?thesis
    unfolding step loop ret_def [of "()"] and_then_Some_Inr newid
    by (simp add: ret_def alloc_eq s1_def)
qed

lemma is_legacy_itemE:
  assumes "is_legacy_item h x idv attrs"
  obtains a b kvs where "x = HRef a" "cell h a = HObject kvs"
    "set (map fst kvs) = {''id'', ''attributes''}"
    "map_of kvs ''id'' = Some idv" "map_of kvs ''attributes'' = Some (HRef b)"
    "cell h b = HObject attrs"
proof -
  from assms have r: "is_ref x" and na: "\<not> h_isArray h x"
    and ks: "set (map fst (own_entries h x)) = {''id'', ''attributes''}"
    and gi: "h_get h x ''id'' = idv"
    and ra: "is_ref (h_get h x ''attributes'')"
    and naa: "\<not> h_isArray h (h_get h x ''attributes'')"
    and oa: "own_entries h (h_get h x ''attributes'') = attrs"
    unfolding is_legacy_item_def by blast+
  from r obtain a where a: "x = HRef a" by (cases x) simp_all
  from na obtain kvs where kvs: "cell h a = HObject kvs" "own_entries h x = kvs"
    unfolding a by (auto dest: not_array_object)
  from ks have ks': "set (map fst kvs) = {''id'', ''attributes''}"
    by (simp only: kvs(2))
  then have "''id'' \<in> fst ` set kvs" by (simp only: set_map) blast
  then obtain v where v: "map_of kvs ''id'' = Some v"
    by (cases "map_of kvs ''id''") (simp_all only: map_of_eq_None_iff, simp_all)
  with gi have i: "map_of kvs ''id'' = Some idv"
    by (simp add: a h_get_def kvs(1))
  from ra obtain b where b: "h_get h x ''attributes'' = HRef b"
    by (cases "h_get h x ''attributes''") simp_all
  then have "h_get h (HRef a) ''attributes'' = HRef b" by (simp only: a)
  from h_get_defined [OF this] kvs(1) have mb: "map_of kvs ''attributes'' = Some (HRef b)"
    by simp
  from naa oa obtain kvs' where "cell h b = HObject kvs'" "own_entries h (HRef b) = kvs'"
    unfolding b by (auto dest: not_array_object)
  with oa b have cb: "cell h b = HObject attrs" by simp
  from a kvs(1) ks' i mb cb show ?thesis by (rule that)
qed

lemma is_legacy_itemI:
  assumes "cell h a = HObject [(''id'', idv), (''attributes'', HRef b)]"
    and "cell h b = HObject attrs"
  shows "is_legacy_item h (HRef a) idv attrs"
  using assms by (simp add: is_legacy_item_def h_isArray_def own_entries_def h_get_def)

lemma plain_value_not_item:
  assumes "plain_value h v" and "h_truthy (h_get h v ''id'')"
    and "h_truthy (h_get h v ''attributes'')"
  shows "\<not> is_ref v"
  using assms by (auto simp: plain_value_def split: if_splits)

text \<open>An item whose \<open>id\<close> is falsy comes back as it is, in both directions.\<close>

lemma transform_falsy_id:
  assumes item: "cell (heap s) a = HObject kvs"
    and idv: "\<not> h_truthy (h_get (heap s) (HRef a) ''id'')"
    and doc: "\<not> h_truthy (h_get (heap s) (HRef a) ''documentId'')"
    and cache: "in_progress s = []"
    and fuel: "3 \<le> fuel"
  shows "transform fuel (HRef a) src tgt options s = ret (HRef a) s"
proof -
  define n where "n = fuel - 3"
  from fuel have n: "fuel = Suc (Suc (Suc n))"
    unfolding n_def by arith
  let ?o = "transform_defaults options"
  let ?s = "cache_add (HRef a) s"
  have na: "\<not> h_isArray (heap ?s) (HRef a)"
    using item by (simp add: h_isArray_object)
  have i4: "transformV4ItemToV5 (Suc n) (HRef a) ?o ?s = ret (HRef a) ?s"
    using idv by (simp add: transform_Suc)
  have i5: "transformV5ItemToV4 (Suc n) (HRef a) ?o ?s = ret (HRef a) ?s"
    using doc by (simp add: transform_Suc)
  have v4: "transformV4ToV5 (Suc (Suc n)) (HRef a) ?o ?s = ret (HRef a) ?s"
    using na i4 by (simp add: transform_Suc(2))
  have v5: "transformV5ToV4 (Suc (Suc n)) (HRef a) ?o ?s = ret (HRef a) ?s"
    using na i5 by (simp add: transform_Suc(4))
  have nc: "\<not> in_cache s (HRef a)" using cache by simp
  from v4 v5 nc show ?thesis
    unfolding n transform_Suc(1) Let_def
    by (auto simp: ret_def cache_add_delete_same simp del: cache_add.simps cache_delete.simps)
qed

lemma round_trip_plain:
  assumes item: "cell (heap s) a = HObject kvs"
    and idv: "map_of kvs ''id'' = Some idv" "to_js idv = Some j" "h_truthy idv"
    and at: "map_of kvs ''attributes'' = Some (HRef b)" "cell (heap s) b = HObject attrs"
    and conv: "convertible_attributes (heap s) attrs"
    and cache: "in_progress s = []"
    and reg: "roundtrip_ready (registry s) (ctype (transform_defaults options)) j
                (preserveOriginalId (transform_defaults options))"
    and deep: "\<not> depth (transform_defaults options) > MAX_DEPTH"
    and fuel: "7 \<le> fuel"
  shows "\<exists>s'. round_trip fuel (HRef a) options s
           = Some (Inr (HRef (Suc (Suc (length (heap s))))), s')
       \<and> (\<exists>entries. heap s' = heap s @
             [HObject entries, HObject attrs,
              HObject [(''id'', idv), (''attributes'', HRef (Suc (length (heap s))))]])"
proof -
  define n where "n = fuel - 3"
  from fuel have n: "fuel = Suc (Suc (Suc n))" and n4: "4 \<le> n"
    unfolding n_def by arith+
  let ?opts = "transform_defaults options"
  from conv have plain: "\<forall>kv \<in> set attrs. plain_value (heap s) (snd kv)"
    by (simp add: convertible_attributes_def list_all_iff)
  let ?rd = "clock s (tick s)"
  let ?ct = "ctype ?opts"
  let ?d = "fst (mapV4ToV5 ?rd j ?ct (registry s))"
  let ?reg = "snd (mapV4ToV5 ?rd j ?ct (registry s))"
  let ?idpart = "if preserveOriginalId ?opts then [(''id'', idv)] else []"
  let ?t = "length (heap s)"
  define entries where "entries = (''documentId'', HStr ?d) # attrs @ ?idpart"
  define s1 where "s1 = s \<lparr> registry := ?reg, tick := tick s + 1,
                 heap := heap s @ [HObject entries] \<rparr>"
  define sa where "sa = s \<lparr> in_progress := [a] \<rparr>"
  have ca: "cache_add (HRef a) s = sa"
    by (simp add: sa_def cache)
  have gid: "h_get (heap s) (HRef a) ''id'' = idv"
    and gat: "h_get (heap s) (HRef a) ''attributes'' = HRef b"
    by (simp_all add: h_get_def item idv(1) at(1))
  have not_a: "\<not> in_cache sa (snd kv)" if "kv \<in> set attrs" for kv
  proof
    assume "in_cache sa (snd kv)"
    then have "snd kv = HRef a" by (cases "snd kv") (simp_all add: sa_def)
    moreover from plain that have "plain_value (heap s) (snd kv)" by blast
    ultimately have "plain_value (heap s) (HRef a)" by simp
    from plain_value_not_item [OF this] gid gat idv(3) show False by simp
  qed
  have item_fwd: "transformV4ItemToV5 (Suc n) (HRef a) ?opts sa
      = Some (Inr (HRef ?t), sa \<lparr> registry := ?reg, tick := tick s + 1,
                 heap := heap s @ [HObject entries] \<rparr>)"
    using transformV4ItemToV5_plain_attributes
      [of sa a kvs idv j b attrs n ?opts] item idv at conv not_a n4
    by (simp add: sa_def entries_def)
  have del: "cache_delete (HRef a) (sa \<lparr> registry := ?reg, tick := tick s + 1,
                 heap := heap s @ [HObject entries] \<rparr>) = s1"
    by (simp add: sa_def s1_def cache)
  have na: "\<not> h_isArray (heap sa) (HRef a)"
    using item by (simp add: h_isArray_object sa_def)
  have fwd: "transform fuel (HRef a) V4 V5 options s = Some (Inr (HRef ?t), s1)"
    unfolding n transform_Suc(1) transform_Suc(2) [of "Suc n"] Let_def ca
    using deep cache na
    by (simp add: item_fwd) (simp add: sa_def s1_def)
  define sb where "sb = s1 \<lparr> in_progress := [?t] \<rparr>"
  have cb: "cache_add (HRef ?t) s1 = sb"
    by (simp add: sb_def s1_def cache)
  have dne: "?d \<noteq> []"
    using reg by (rule mapV4ToV5_nonempty)
  have back_id: "?idpart = [(''id'', idv)] \<and> h_truthy idv
     \<or> ?idpart = [] \<and> mapV5ToV4 (JStr ?d) ?ct (registry sb) = Inr j \<and> of_js j = Some idv"
  proof (cases "preserveOriginalId ?opts")
    case True
    with idv(3) show ?thesis by simp
  next
    case False
    with reg have "key_faithful (registry s) ?ct j"
      by (auto simp: roundtrip_ready_def key_faithful_def split: option.splits)
    then have "mapV5ToV4 (JStr ?d) ?ct ?reg = Inr j"
      by (rule mapV5ToV4_after_mapV4ToV5)
    with False of_js_to_js [OF idv(2)] show ?thesis by (simp add: sb_def s1_def)
  qed
  have cell_t: "cell (heap sb) ?t = HObject ((''documentId'', HStr ?d) # attrs @ ?idpart)"
    by (simp add: cell_append_new sb_def s1_def entries_def)
  have eb: "extends (heap s) (heap sb)"
    by (simp add: sb_def s1_def)
  have not_t: "\<forall>kv \<in> set attrs. \<not> in_cache sb (snd kv)"
  proof
    fix kv assume kv: "kv \<in> set attrs"
    show "\<not> in_cache sb (snd kv)"
    proof
      assume "in_cache sb (snd kv)"
      then have "snd kv = HRef ?t" by (cases "snd kv") (simp_all add: sb_def)
      moreover from plain kv have "plain_value (heap s) (snd kv)" by blast
      ultimately show False by (simp add: plain_value_def valid_ref_def)
    qed
  qed
  define s2 where "s2 = s1 \<lparr> heap := heap s1 @
             [HObject attrs, HObject [(''id'', idv), (''attributes'', HRef (Suc ?t))]] \<rparr>"
  have item_back: "transformV5ItemToV4 (Suc n) (HRef ?t) ?opts sb
      = Some (Inr (HRef (Suc (length (heap sb)))),
          sb \<lparr> heap := heap sb @
             [HObject attrs, HObject [(''id'', idv), (''attributes'', HRef (length (heap sb)))]] \<rparr>)"
    by (rule transformV5ItemToV4_plain_item [OF cell_t dne back_id eb conv not_t n4])
  have lb: "length (heap sb) = Suc ?t"
    by (simp add: sb_def s1_def)
  have del2: "cache_delete (HRef ?t) (sb \<lparr> heap := heap sb @
             [HObject attrs, HObject [(''id'', idv), (''attributes'', HRef (length (heap sb)))]] \<rparr>) = s2"
    by (simp add: sb_def s2_def s1_def cache)
  have nb: "\<not> h_isArray (heap sb) (HRef ?t)"
    using cell_t by (rule h_isArray_object)
  have c1: "in_progress s1 = []" by (simp add: s1_def cache)
  have bwd: "transform fuel (HRef ?t) V5 V4 options s1 = Some (Inr (HRef (Suc (Suc ?t))), s2)"
    unfolding n transform_Suc(1) transform_Suc(4) [of "Suc n"] Let_def cb
    using deep c1 nb
    by (simp add: item_back lb) (simp add: sb_def s2_def s1_def)
  have rt: "round_trip fuel (HRef a) options s = Some (Inr (HRef (Suc (Suc ?t))), s2)"
    by (simp add: round_trip_def fwd bwd)
  show ?thesis
    unfolding rt by (simp add: s2_def s1_def)
qed

text \<open>
  The data of the envelope must be well-typed for the call to return. Where the data holds
  the self-related item of C1, no call stack allowance suffices.
\<close>

lemma transform_cycle_never_returns:
  assumes hc: "holds_cycle (heap s)" and cache: "in_progress s = []"
  shows "transform fuel (HRef 0) V4 V5 no_transform_options s = None"
proof (cases fuel)
  case 0 then show ?thesis by simp
next
  case (Suc n)
  let ?s = "cache_add (HRef 0) s"
  have hc': "holds_cycle (heap ?s)" using hc by simp
  have "transformV4ToV5 n (HRef 0) (transform_defaults no_transform_options) ?s = None"
  proof (cases n)
    case 0 then show ?thesis by simp
  next
    case (Suc m)
    have "\<not> h_isArray (heap ?s) (HRef 0)"
      using hc by (simp add: h_isArray_def holds_cycle_def)
    with self_relation_diverges [OF hc'] Suc show ?thesis
      by (simp add: transform_Suc)
  qed
  with Suc cache show ?thesis
    by (simp add: transform_Suc transform_defaults_def no_transform_options_def MAX_DEPTH_def)
qed

lemma transformResponse_cyclic_data_never_returns:
  "transformResponse fuel (HRef 3) V4 V5 no_transform_options (initial_state cyclic_envelope) = None"
proof (cases fuel)
  case 0 then show ?thesis by (simp add: transformResponse_def)
next
  case (Suc n)
  let ?s = "initial_state cyclic_envelope"
  let ?kvs = "[(''data'', HRef 0), (''meta'', HRef 4)]"
  let ?s1 = "?s \<lparr> heap := heap ?s @ [HObject ?kvs] \<rparr>"
  have c3: "cell (heap ?s) 3 = HObject ?kvs" and l: "length (heap ?s) = 6"
    by (simp_all add: initial_state_def cyclic_envelope_def self_related_def cell_def)
  have sp: "spread_into [] (own_entries (heap ?s) (HRef 3)) = ?kvs"
    by (simp add: own_entries_def c3 spread_into_def)
  have hc: "holds_cycle (heap ?s1)"
    by (simp add: holds_cycle_def initial_state_def cyclic_envelope_def self_related_def cell_def)
  have "in_progress ?s1 = []" by (simp add: initial_state_def)
  with hc have "transform n (HRef 0) V4 V5 no_transform_options ?s1 = None"
    by (rule transform_cycle_never_returns)
  moreover have "h_get (heap ?s1) (HRef (length (heap ?s))) ''data'' = HRef 0"
    by (simp add: h_get_def cell_append_new)
  ultimately show ?thesis
    unfolding transformResponse_def Suc
    by (simp add: sp alloc_eq del: assign.simps)
qed

text \<open>Where the data is a modern item whose \<open>documentId\<close> is a number, the call throws.\<close>

lemma transformResponse_numeric_documentId_throws:
  "thrown (transformResponse 10 (HRef 0) V5 V4 no_transform_options
             (initial_state numeric_documentId_envelope))
   = Some (TypeError ''documentId.match is not a function'')"
  by code_simp

text \<open>
  C10 (as the code has it). When the formats differ, the envelope is an object whose \<open>meta\<close>
  is an object with a truthy \<open>pagination\<close>, its \<open>data\<close> is well-typed of nesting depth at most
  \<open>d\<close>, the registry holds primitive identifiers, and the call stack allowance is at least
  \<open>4 d + 4\<close>: the call returns; the result is a new object with the keys of the envelope and,
  except for \<open>data\<close>, the same values (so its \<open>meta\<close> is the same reference); the \<open>meta\<close>
  object of the caller now has a new, normalised \<open>pagination\<close> object in place of the old one;
  no other object the caller had is changed.
\<close>

theorem transformResponse_shares_meta:
  assumes "src \<noteq> tgt"
    and "cell (heap s) e = HObject kvs" and "distinct (map fst kvs)"
    and "map_of kvs ''meta'' = Some (HRef m)" and "m < length (heap s)"
    and "cell (heap s) m = HObject mkvs"
    and "map_of mkvs ''pagination'' = Some pg" and "h_truthy pg" and "valid_ref (heap s) pg"
    and "well_typed d (heap s) (h_get (heap s) (HRef e) ''data'')"
    and "primitive_ids (registry s)"
    and "4 * d + 4 \<le> fuel"
  shows "returned (transformResponse fuel (HRef e) src tgt options s)
     \<and> (\<exists>p kvs'.
       result_of (transformResponse fuel (HRef e) src tgt options s) = HRef (length (heap s))
     \<and> length (heap s) < p
     \<and> p < length (heap_of (transformResponse fuel (HRef e) src tgt options s))
     \<and> cell (heap_of (transformResponse fuel (HRef e) src tgt options s)) m
         = HObject (AList.update ''pagination'' (HRef p) mkvs)
     \<and> cell (heap_of (transformResponse fuel (HRef e) src tgt options s)) p
         = normalized_pagination (heap s) pg
     \<and> (\<forall>a < length (heap s). a \<noteq> m \<longrightarrow>
           cell (heap_of (transformResponse fuel (HRef e) src tgt options s)) a = cell (heap s) a)
     \<and> cell (heap_of (transformResponse fuel (HRef e) src tgt options s)) (length (heap s))
         = HObject kvs'
     \<and> map fst kvs' = map fst kvs
     \<and> (\<forall>k. k \<noteq> ''data'' \<longrightarrow> map_of kvs' k = map_of kvs k))"
proof -
  have r: "returned (transformResponse fuel (HRef e) src tgt options s)"
    using assms(1-3,10-12) by (rule transformResponse_returns)
  then obtain res s' where
    run: "transformResponse fuel (HRef e) src tgt options s = Some (Inr res, s')"
    by (auto simp: returned_def split: option.splits sum.splits prod.splits)
  from transformResponse_frame [OF assms(1-9) run] r show ?thesis
    by (simp add: run result_of_def heap_of_def)
qed

text \<open>
  For the example envelope, whose data has depth 2: the caller's \<open>meta\<close> (address 3) now
  points to the normalised pagination, the envelope itself (address 0) is unchanged and still
  points to that \<open>meta\<close>, as does the returned copy (address 5).
\<close>

theorem transformResponse_shares_meta_witness:
  "well_typed 2 (heap (initial_state envelope))
     (h_get (heap (initial_state envelope)) (HRef 0) ''data'')
   \<and> primitive_ids (registry (initial_state envelope))
   \<and> returned (transformResponse 12 (HRef 0) V4 V5 no_transform_options (initial_state envelope))
   \<and> (\<exists>p kvs'.
       result_of (transformResponse 12 (HRef 0) V4 V5 no_transform_options (initial_state envelope))
         = HRef 5
     \<and> 5 < p
     \<and> cell (heap_of (transformResponse 12 (HRef 0) V4 V5 no_transform_options
                        (initial_state envelope))) 3
         = HObject [(''pagination'', HRef p), (''source'', HStr ''cache'')]
     \<and> cell (heap_of (transformResponse 12 (HRef 0) V4 V5 no_transform_options
                        (initial_state envelope))) p
         = HObject [(''page'', HNum 1), (''pageSize'', HNum 25), (''pageCount'', HNum 1),
                    (''total'', HNum 7)]
     \<and> cell (heap_of (transformResponse 12 (HRef 0) V4 V5 no_transform_options
                        (initial_state envelope))) 0
         = HObject [(''data'', HRef 1), (''meta'', HRef 3)]
     \<and> cell (heap_of (transformResponse 12 (HRef 0) V4 V5 no_transform_options
                        (initial_state envelope))) 5 = HObject kvs'
     \<and> map_of kvs' ''meta'' = Some (HRef 3))"
proof -
  let ?s = "initial_state envelope"
  have wt: "well_typed 2 (heap ?s) (h_get (heap ?s) (HRef 0) ''data'')"
    by code_simp
  have pr: "primitive_ids (registry ?s)"
    by (simp add: primitive_ids_def initial_state_def empty_registry_def)
  have c0: "cell (heap ?s) 0 = HObject [(''data'', HRef 1), (''meta'', HRef 3)]"
    and c3: "cell (heap ?s) 3 = HObject [(''pagination'', HRef 4), (''source'', HStr ''cache'')]"
    and l: "length (heap ?s) = 5"
    by (simp_all add: initial_state_def envelope_def cell_def)
  have np: "normalized_pagination (heap ?s) (HRef 4)
      = HObject [(''page'', HNum 1), (''pageSize'', HNum 25), (''pageCount'', HNum 1),
                 (''total'', HNum 7)]"
    by (simp add: initial_state_def normalized_pagination_def h_get_def h_or_def cell_def envelope_def)
  from transformResponse_shares_meta
    [of V4 V5 ?s 0 "[(''data'', HRef 1), (''meta'', HRef 3)]" 3
        "[(''pagination'', HRef 4), (''source'', HStr ''cache'')]" "HRef 4" 2 12
        no_transform_options,
     OF _ c0 _ _ _ c3 _ _ _ wt pr]
  obtain p kvs' where
    "returned (transformResponse 12 (HRef 0) V4 V5 no_transform_options ?s)"
    "result_of (transformResponse 12 (HRef 0) V4 V5 no_transform_options ?s) = HRef 5"
    "5 < p"
    "cell (heap_of (transformResponse 12 (HRef 0) V4 V5 no_transform_options ?s)) 3
       = HObject [(''pagination'', HRef p), (''source'', HStr ''cache'')]"
    "cell (heap_of (transformResponse 12 (HRef 0) V4 V5 no_transform_options ?s)) p
       = normalized_pagination (heap ?s) (HRef 4)"
    "\<forall>a < 5. a \<noteq> 3 \<longrightarrow>
       cell (heap_of (transformResponse 12 (HRef 0) V4 V5 no_transform_options ?s)) a
         = cell (heap ?s) a"
    "cell (heap_of (transformResponse 12 (HRef 0) V4 V5 no_transform_options ?s)) 5 = HObject kvs'"
    "\<forall>k. k \<noteq> ''data'' \<longrightarrow> map_of kvs' k = map_of [(''data'', HRef 1), (''meta'', HRef 3)] k"
    by (auto simp: l valid_ref_def)
  with wt pr np c0 show ?thesis
    by (intro conjI exI [of _ p] exI [of _ kvs']) simp_all
qed

text \<open>
  C10 as stated fails when the two formats are equal: the envelope itself is returned and
  nothing is written, so \<open>meta.pagination\<close> (here with \<open>page: 0\<close>) stays as it was.
\<close>

theorem transformResponse_same_format_counterexample:
  "transformResponse 10 (HRef 0) V4 V4 no_transform_options (initial_state envelope)
   = Some (Inr (HRef 0), initial_state envelope)"
  by (simp add: transformResponse_def ret_def)

text \<open>
  C2 (as the code has it). Let \<open>x\<close> be a legacy item \<open>{ id, attributes }\<close> whose \<open>id\<close> is a
  primitive. Where the \<open>id\<close> is truthy, let its attributes be convertible and the registry
  ready for the item. With nothing in progress and a call stack allowance of at least 7,
  \<open>transform(transform(x, 'v4', 'v5', o), 'v5', 'v4', o)\<close> returns a legacy item with the same
  \<open>id\<close> and the same attribute keys and values, in the same order, and with no other property:
  the \<open>documentId\<close> is gone. No object the caller had is changed. (Where the \<open>id\<close> is falsy
  the item itself comes back, whatever its attributes hold.)
\<close>

theorem round_trip_plain_attributes:
  assumes "is_legacy_item (heap s) x idv attrs"
    and "to_js idv = Some j"
    and "h_truthy idv \<Longrightarrow> convertible_attributes (heap s) attrs"
    and "h_truthy idv \<Longrightarrow>
           roundtrip_ready (registry s) (ctype (transform_defaults options)) j
             (preserveOriginalId (transform_defaults options))"
    and "in_progress s = []"
    and "7 \<le> fuel"
  shows "returned (round_trip fuel x options s)
    \<and> is_legacy_item (heap_of (round_trip fuel x options s))
         (result_of (round_trip fuel x options s)) idv attrs
    \<and> extends (heap s) (heap_of (round_trip fuel x options s))"
proof -
  from assms(1) obtain a b kvs where
    x: "x = HRef a" and item: "cell (heap s) a = HObject kvs"
    and ks: "set (map fst kvs) = {''id'', ''attributes''}"
    and mi: "map_of kvs ''id'' = Some idv" and ma: "map_of kvs ''attributes'' = Some (HRef b)"
    and cb: "cell (heap s) b = HObject attrs"
    by (rule is_legacy_itemE)
  have same: ?thesis if "round_trip fuel x options s = Some (Inr x, s)"
    using that assms(1) by (simp add: returned_def result_of_def heap_of_def)
  from assms(6) have f3: "3 \<le> fuel" by simp
  from assms(6) obtain n where n: "fuel = Suc n" by (cases fuel) simp_all
  show ?thesis
  proof (cases "depth (transform_defaults options) > MAX_DEPTH")
    case True
    then have "transform fuel v src tgt options s' = Some (Inr v, s')" for v src tgt s'
      by (simp add: n transform_Suc ret_def)
    then have "round_trip fuel x options s = Some (Inr x, s)"
      by (simp add: round_trip_def)
    then show ?thesis by (rule same)
  next
    case deep: False
    show ?thesis
    proof (cases "h_truthy idv")
      case False
      have gi: "\<not> h_truthy (h_get (heap s) (HRef a) ''id'')"
        using False by (simp add: h_get_def item mi)
      have "''documentId'' \<notin> set (map fst kvs)"
        unfolding ks by simp
      then have "map_of kvs ''documentId'' = None"
        by (simp add: map_of_eq_None_iff)
      then have gd: "\<not> h_truthy (h_get (heap s) (HRef a) ''documentId'')"
        by (simp add: h_get_def item)
      have "transform fuel (HRef a) src tgt options s = ret (HRef a) s" for src tgt
        using item gi gd assms(5) f3 by (rule transform_falsy_id)
      then have "round_trip fuel x options s = Some (Inr x, s)"
        by (simp add: round_trip_def x ret_def)
      then show ?thesis by (rule same)
    next
      case True
      from round_trip_plain [OF item mi assms(2) True ma cb assms(3) [OF True] assms(5)
          assms(4) [OF True] deep assms(6)]
      obtain s' entries where
        rt: "round_trip fuel (HRef a) options s
               = Some (Inr (HRef (Suc (Suc (length (heap s))))), s')"
        and h': "heap s' = heap s @
             [HObject entries, HObject attrs,
              HObject [(''id'', idv), (''attributes'', HRef (Suc (length (heap s))))]]"
        by blast
      have "is_legacy_item (heap s') (HRef (Suc (Suc (length (heap s))))) idv attrs"
        by (rule is_legacy_itemI [where b = "Suc (length (heap s))"])
          (simp_all add: h' cell_def nth_append)
      then show ?thesis
        by (simp add: x rt returned_def result_of_def heap_of_def h')
    qed
  qed
qed

text \<open>
  The round trips of \<open>{ id: 7, attributes: { title: "a", seo: { k: 1 } } }\<close>, whose nested
  object comes back as it is, and of \<open>{ id: 0, attributes: { tags: ["x"] } }\<close>, which comes
  back itself.
\<close>

theorem round_trip_plain_attributes_witness:
  "is_legacy_item (heap (initial_state item_with_seo)) (HRef 0) (HNum 7)
     [(''title'', HStr ''a''), (''seo'', HRef 2)]
   \<and> convertible_attributes (heap (initial_state item_with_seo))
        [(''title'', HStr ''a''), (''seo'', HRef 2)]
   \<and> returned (round_trip 7 (HRef 0) no_transform_options (initial_state item_with_seo))
   \<and> is_legacy_item
        (heap_of (round_trip 7 (HRef 0) no_transform_options (initial_state item_with_seo)))
        (result_of (round_trip 7 (HRef 0) no_transform_options (initial_state item_with_seo)))
        (HNum 7) [(''title'', HStr ''a''), (''seo'', HRef 2)]
   \<and> is_legacy_item (heap (initial_state item_without_id)) (HRef 0) (HNum 0)
        [(''tags'', HRef 2)]
   \<and> returned (round_trip 7 (HRef 0) no_transform_options (initial_state item_without_id))
   \<and> is_legacy_item
        (heap_of (round_trip 7 (HRef 0) no_transform_options (initial_state item_without_id)))
        (result_of (round_trip 7 (HRef 0) no_transform_options (initial_state item_without_id)))
        (HNum 0) [(''tags'', HRef 2)]"
proof -
  let ?s = "initial_state item_with_seo"
  let ?z = "initial_state item_without_id"
  have i: "is_legacy_item (heap ?s) (HRef 0) (HNum 7) [(''title'', HStr ''a''), (''seo'', HRef 2)]"
    by (rule is_legacy_itemI [where b = 1])
      (simp_all add: initial_state_def item_with_seo_def cell_def)
  have c: "convertible_attributes (heap ?s) [(''title'', HStr ''a''), (''seo'', HRef 2)]"
    by code_simp
  have rr: "roundtrip_ready (registry ?s)
      (ctype (transform_defaults no_transform_options)) (JNum 7)
      (preserveOriginalId (transform_defaults no_transform_options))"
    by (simp add: roundtrip_ready_def initial_state_def empty_registry_def)
  have iz: "is_legacy_item (heap ?z) (HRef 0) (HNum 0) [(''tags'', HRef 2)]"
    by (rule is_legacy_itemI [where b = 1])
      (simp_all add: initial_state_def item_without_id_def cell_def)
  have 1: "returned (round_trip 7 (HRef 0) no_transform_options ?s)
    \<and> is_legacy_item (heap_of (round_trip 7 (HRef 0) no_transform_options ?s))
         (result_of (round_trip 7 (HRef 0) no_transform_options ?s))
         (HNum 7) [(''title'', HStr ''a''), (''seo'', HRef 2)]
    \<and> extends (heap ?s) (heap_of (round_trip 7 (HRef 0) no_transform_options ?s))"
    by (rule round_trip_plain_attributes [where j = "JNum 7", OF i _ c rr])
      (simp_all add: initial_state_def)
  have 2: "returned (round_trip 7 (HRef 0) no_transform_options ?z)
    \<and> is_legacy_item (heap_of (round_trip 7 (HRef 0) no_transform_options ?z))
         (result_of (round_trip 7 (HRef 0) no_transform_options ?z))
         (HNum 0) [(''tags'', HRef 2)]
    \<and> extends (heap ?z) (heap_of (round_trip 7 (HRef 0) no_transform_options ?z))"
    by (rule round_trip_plain_attributes [where j = "JNum 0", OF iz])
      (simp_all add: initial_state_def)
  from i c iz 1 2 show ?thesis by blast
qed

text \<open>
  C2 as stated fails for an attribute that is an array, which is no relation in the legacy
  shape: \<open>tags: ["x"]\<close> comes back as \<open>tags: { data: ["x"] }\<close>, because on the way back every
  array counts as a relation and is wrapped.
\<close>

theorem round_trip_array_attribute_counterexample:
  "h_isArray item_with_tags (h_path item_with_tags (HRef 0) [''attributes'', ''tags''])
   \<and> returned (round_trip 10 (HRef 0) no_transform_options (initial_state item_with_tags))
   \<and> \<not> h_isArray
         (heap_of (round_trip 10 (HRef 0) no_transform_options (initial_state item_with_tags)))
         (h_path
            (heap_of (round_trip 10 (HRef 0) no_transform_options (initial_state item_with_tags)))
            (result_of (round_trip 10 (HRef 0) no_transform_options (initial_state item_with_tags)))
            [''attributes'', ''tags''])"
  by code_simp

subsection \<open>Chains of relations\<close>

lemma is_chain_extends: "extends h h' \<Longrightarrow> is_chain h x k \<Longrightarrow> is_chain h' x k"
proof (induction k arbitrary: x)
  case 0 then show ?case by simp
next
  case (Suc k)
  from Suc.prems(2) have v: "valid_ref h x" by (simp add: Let_def)
  note e = Suc.prems(1)
  from Suc.prems(2) have va: "valid_ref h (h_get h x ''attributes'')" by (simp add: Let_def)
  show ?case
  proof (cases "k = 0")
    case True
    with Suc.prems(2) show ?thesis
      by (simp add: Let_def h_get_extends [OF e v] own_entries_extends [OF e va]
            h_isArray_extends [OF e va] valid_ref_extends [OF e])
  next
    case False
    with Suc.prems(2) have vr: "valid_ref h (h_get h (h_get h x ''attributes'') ''next'')"
      by (simp add: Let_def)
    from False Suc.prems(2) have
      "is_chain h (h_get h (h_get h (h_get h x ''attributes'') ''next'') ''data'') k"
      by (simp add: Let_def)
    from Suc.IH [OF e this] False Suc.prems(2) show ?thesis
      by (simp add: Let_def h_get_extends [OF e v] h_get_extends [OF e va] h_get_extends [OF e vr]
            own_entries_extends [OF e va] own_entries_extends [OF e vr]
            h_isArray_extends [OF e va] h_isArray_extends [OF e vr] valid_ref_extends [OF e])
  qed
qed

lemma modern_chain_frame:
  assumes "modern_chain lo h v k"
    and "length h \<le> length h'"
    and "\<And>r. lo \<le> r \<Longrightarrow> r < length h \<Longrightarrow> cell h' r = cell h r"
    and "lo' \<le> lo"
  shows "modern_chain lo' h' v k"
  using assms(1)
proof (induction k arbitrary: v)
  case 0 then show ?case by simp
next
  case (Suc k)
  then obtain r where r: "v = HRef r" "lo \<le> r" "r < length h"
    by (cases v) auto
  have g: "h_get h' (HRef r) key = h_get h (HRef r) key" for key
    using assms(3) [OF r(2,3)] by (simp add: h_get_def)
  from Suc.prems r have "modern_chain lo h (h_get h v ''next'') k" by simp
  from Suc.IH [OF this] Suc.prems r assms(2,4) show ?case
    by (simp add: g)
qed


text \<open>One level of the chain: the item at \<open>a\<close> whose only attribute is the relation at \<open>c\<close>.\<close>

lemma transformV4ItemToV5_relation_step:
  fixes s :: TState and opts :: TransformOpts and j :: jsval and idv :: hval and c :: nat
  defines "t \<equiv> length (heap s)"
    and "d \<equiv> fst (mapV4ToV5 (clock s (tick s)) j (ctype opts) (registry s))"
  defines "idpart \<equiv> (if preserveOriginalId opts then [(''id'', idv)] else [])"
  defines "s2 \<equiv> s \<lparr> registry := snd (mapV4ToV5 (clock s (tick s)) j (ctype opts) (registry s)),
                     tick := tick s + 1,
                     heap := heap s @ [HObject ((''documentId'', HStr d) # (''next'', HRef c) # idpart)] \<rparr>"
  assumes item: "cell (heap s) a = HObject kvs"
    and idv: "map_of kvs ''id'' = Some idv" "to_js idv = Some j" "h_truthy idv"
    and at: "map_of kvs ''attributes'' = Some (HRef b)"
      "cell (heap s) b = HObject [(''next'', HRef c)]"
    and rel: "c < length (heap s)" "cell (heap s) c = HObject [(''data'', y)]"
      "is_ref y" "valid_ref (heap s) y" "\<not> h_isArray (heap s) y"
    and nested: "transformV4ItemToV5 n y (opts \<lparr> depth := depth opts + 1, ctype := ''relation'' \<rparr>) s2
        = Some (Inr v', s3)"
    and ext: "extends (heap s2) (heap s3)"
  shows "transformV4ItemToV5 (Suc (Suc (Suc n))) (HRef a) opts s
     = Some (Inr (HRef t),
         s3 \<lparr> heap := (heap s3)[t := HObject ((''documentId'', HStr d) # (''next'', v') # idpart)] \<rparr>)"
proof -
  let ?s1 = "s \<lparr> registry := snd (mapV4ToV5 (clock s (tick s)) j (ctype opts) (registry s)),
                 tick := tick s + 1 \<rparr>"
  define entries where "entries = (''documentId'', HStr d) # (''next'', HRef c) # idpart"
  have s2: "s2 = ?s1 \<lparr> heap := heap s @ [HObject entries] \<rparr>"
    by (simp add: s2_def entries_def)
  have call: "call_mapV4ToV5 idv (ctype opts) s = Some (Inr d, ?s1)"
    by (simp add: call_mapV4ToV5_def idv(2) ret_def d_def split: prod.splits)
  have gid: "h_get (heap s) (HRef a) ''id'' = idv"
    and gat: "h_get (heap s) (HRef a) ''attributes'' = HRef b"
    by (simp_all add: h_get_def item idv(1) at(1))
  have oe: "own_entries (heap s) (HRef b) = [(''next'', HRef c)]"
    by (simp add: own_entries_def at(2))
  have ent: "(if preserveOriginalId opts
              then AList.update ''id'' idv (spread_into [(''documentId'', HStr d)] [(''next'', HRef c)])
              else spread_into [(''documentId'', HStr d)] [(''next'', HRef c)]) = entries"
    by (simp add: spread_into_def entries_def idpart_def)
  let ?f = "\<lambda>v. transformNestedData (Suc (Suc n)) v V4 V5 (opts \<lparr> depth := depth opts + 1 \<rparr>)"
  have step: "transformV4ItemToV5 (Suc (Suc (Suc n))) (HRef a) opts s =
      and_then (for_each_key ?f (HRef t) (map fst entries) s2) (\<lambda>u s3. ret (HRef t) s3)"
    unfolding transform_Suc(3)
    by (simp add: gid gat idv(3) call oe ent alloc_eq Let_def s2 t_def
          del: for_each_key.simps split del: if_split cong: if_cong)
  have lt: "t < length (heap s2)" "c < length (heap s2)"
    using rel(1) by (simp_all add: s2 t_def)
  have e2: "extends (heap s) (heap s2)" by (simp add: s2)
  have ct2: "cell (heap s2) t = HObject entries"
    by (simp add: s2 t_def cell_append_new)
  have cc2: "cell (heap s2) c = HObject [(''data'', y)]"
    using extends_cell [OF e2 rel(1)] rel(2) by simp
  have ny: "\<not> h_isArray (heap s2) y"
    using h_isArray_extends [OF e2 rel(4)] rel(5) by simp
  have ty: "h_truthy y" using rel(3) by (cases y) simp_all
  have yu: "y \<noteq> HUndefined" using rel(3) by (cases y) simp_all
  have nest: "?f (HRef c) s2 = Some (Inr v', s3)"
    using nested ny ty yu
    by (simp add: transform_Suc(6) transform_Suc(7) isRelationData_def h_get_def cc2)
  have ct3: "cell (heap s3) t = HObject entries"
    using extends_cell [OF ext lt(1)] ct2 by simp
  define s4 where "s4 = s3 \<lparr> heap := (heap s3)[t := HObject (AList.update ''next'' v' entries)] \<rparr>"
  have as: "assign (HRef t) ''next'' v' s3 = s4"
    by (simp add: set_prop_def ct3 s4_def)
  have lt3: "t < length (heap s3)"
    using extends_length [OF ext] lt(1) by simp
  have upd: "AList.update ''next'' v' entries = (''documentId'', HStr d) # (''next'', v') # idpart"
    by (simp add: entries_def)
  have gid4: "\<not> is_ref (h_get (heap s4) (HRef t) ''id'')"
    using idv(2) lt3 by (cases idv) (auto simp: h_get_def s4_def cell_update_same upd idpart_def)
  have loop: "for_each_key ?f (HRef t) (map fst entries) s2 = ret () s4"
    using gid4
    by (simp add: entries_def idpart_def h_get_def ct2 [unfolded entries_def idpart_def] nest as Let_def
          del: assign.simps)
  show ?thesis
    unfolding step loop by (simp add: ret_def s4_def upd)
qed


lemma is_ref_HRef: "is_ref v \<Longrightarrow> \<exists>a. v = HRef a"
  by (cases v) auto

lemma chain_converted:
  assumes "is_chain (heap s) x k" and "3 * k \<le> fuel"
  shows "\<exists>v s'. transformV4ItemToV5 fuel x opts s = Some (Inr v, s')
      \<and> extends (heap s) (heap s') \<and> modern_chain (length (heap s)) (heap s') v k"
  using assms
proof (induction k arbitrary: fuel x opts s)
  case 0
  then show ?case by simp
next
  case (Suc k)
  let ?h = "heap s"
  from Suc.prems(1) obtain a b where x: "x = HRef a" and atb: "h_get ?h x ''attributes'' = HRef b"
    by (auto simp: Let_def dest!: is_ref_HRef)
  from Suc.prems(1) have idt: "h_truthy (h_get ?h x ''id'')" and idp: "\<not> is_ref (h_get ?h x ''id'')"
    and vb: "valid_ref ?h (HRef b)" and nb: "\<not> h_isArray ?h (HRef b)"
    by (simp_all add: Let_def atb)
  define idv where "idv = h_get ?h x ''id''"
  from idp obtain j where j: "to_js idv = Some j"
    unfolding idv_def by (auto dest: not_ref_to_js)
  from idt have "idv \<noteq> HUndefined" by (auto simp: idv_def)
  with h_get_defined [of ?h a "''id''" idv] obtain kvs where
    kvs: "cell ?h a = HObject kvs" "map_of kvs ''id'' = Some idv"
    by (auto simp: idv_def x)
  from atb kvs(1) have kat: "map_of kvs ''attributes'' = Some (HRef b)"
    by (auto simp: h_get_def x split: option.splits)
  from not_array_object [OF nb] obtain attrs where
    attrs: "cell ?h b = HObject attrs" "own_entries ?h (HRef b) = attrs"
    by blast
  let ?d = "fst (mapV4ToV5 (clock s (tick s)) j (ctype opts) (registry s))"
  let ?idpart = "if preserveOriginalId opts then [(''id'', idv)] else []"
  show ?case
  proof (cases "k = 0")
    case True
    with Suc.prems(1) have leaf: "attrs = [(''title'', HStr ''leaf'')]"
      by (simp add: Let_def atb attrs(2))
    from Suc.prems(2) obtain n where n: "fuel = Suc n" by (cases fuel) auto
    have "transformV4ItemToV5 (Suc n) (HRef a) opts s =
       Some (Inr (HRef (length ?h)),
         s \<lparr> registry := snd (mapV4ToV5 (clock s (tick s)) j (ctype opts) (registry s)),
             tick := tick s + 1,
             heap := ?h @ [HObject ((''documentId'', HStr ?d) # attrs @ ?idpart)] \<rparr>)"
      using idt
      by (intro transformV4ItemToV5_flat_attributes [OF kvs(1) kvs(2) j _ kat attrs(1)])
        (simp_all add: leaf idv_def)
    then show ?thesis
      by (simp add: n x True leaf h_get_def cell_append_new)
  next
    case False
    then obtain k' where k': "k = Suc k'" by (cases k) auto
    define rel where "rel = h_get ?h (HRef b) ''next''"
    from False Suc.prems(1) have keys: "map fst attrs = [''next'']"
      and rr: "is_ref rel" and vr: "valid_ref ?h rel" and nr: "\<not> h_isArray ?h rel"
      and dk: "map fst (own_entries ?h rel) = [''data'']"
      and ch: "is_chain ?h (h_get ?h rel ''data'') k"
      by (simp_all add: Let_def atb attrs(2) rel_def)
    from rr obtain c where c: "rel = HRef c" by (auto dest: is_ref_HRef)
    from keys obtain nv where nv: "attrs = [(''next'', nv)]"
      by (cases attrs) auto
    then have "nv = rel" by (simp add: rel_def h_get_def attrs(1))
    with nv c have at1: "cell ?h b = HObject [(''next'', HRef c)]" using attrs(1) by simp
    from vr c have cl: "c < length ?h" by (simp add: valid_ref_def)
    define y where "y = h_get ?h rel ''data''"
    from not_array_object [of ?h c] nr c obtain rkvs where
      rk: "cell ?h c = HObject rkvs" "own_entries ?h (HRef c) = rkvs" by auto
    with dk c obtain dv where "rkvs = [(''data'', dv)]" by (cases rkvs) auto
    with rk have cc: "cell ?h c = HObject [(''data'', y)]"
      by (simp add: y_def c h_get_def)
    from ch k' have yr: "is_ref y" and yv: "valid_ref ?h y"
      and yt: "h_truthy (h_get ?h y ''id'')"
      by (simp_all add: y_def Let_def)
    from yr obtain a' where a': "y = HRef a'" by (auto dest: is_ref_HRef)
    from yt a' have ya: "\<not> h_isArray ?h y"
      by (auto simp: h_get_def h_isArray_def split: hobj.splits)
    from Suc.prems(2) obtain n where n: "fuel = Suc (Suc (Suc n))" and nk: "3 * k \<le> n"
      by (cases fuel; simp; rename_tac f1; case_tac f1; simp; rename_tac f2; case_tac f2; simp)
    define s2 where "s2 = s \<lparr> registry := snd (mapV4ToV5 (clock s (tick s)) j (ctype opts) (registry s)),
                     tick := tick s + 1,
                     heap := ?h @ [HObject ((''documentId'', HStr ?d) # (''next'', HRef c) # ?idpart)] \<rparr>"
    have e2: "extends ?h (heap s2)" by (simp add: s2_def)
    have l2: "length (heap s2) = Suc (length ?h)" by (simp add: s2_def)
    from is_chain_extends [OF e2 ch] have "is_chain (heap s2) y k" by (simp add: y_def)
    from Suc.IH [OF this nk, of "opts \<lparr> depth := depth opts + 1, ctype := ''relation'' \<rparr>"]
    obtain v' s3 where
      nested: "transformV4ItemToV5 n y (opts \<lparr> depth := depth opts + 1, ctype := ''relation'' \<rparr>) s2
          = Some (Inr v', s3)"
      and e3: "extends (heap s2) (heap s3)"
      and m3: "modern_chain (length (heap s2)) (heap s3) v' k"
      by blast
    let ?t = "length ?h"
    let ?obj = "HObject ((''documentId'', HStr ?d) # (''next'', v') # ?idpart)"
    let ?s4 = "s3 \<lparr> heap := (heap s3)[?t := ?obj] \<rparr>"
    have res: "transformV4ItemToV5 (Suc (Suc (Suc n))) (HRef a) opts s = Some (Inr (HRef ?t), ?s4)"
      using transformV4ItemToV5_relation_step
        [OF kvs(1) kvs(2) j _ kat at1 cl cc yr yv ya nested [unfolded s2_def] e3 [unfolded s2_def]] idt
      by (simp add: idv_def)
    have l3: "Suc ?t \<le> length (heap s3)"
      using extends_length [OF e3] l2 by simp
    have ext: "extends ?h (heap ?s4)"
      using extends_trans [OF e2 e3] by (simp add: extends_update)
    have m4: "modern_chain (Suc ?t) (heap ?s4) v' k"
      using m3 l2 by (intro modern_chain_frame [OF m3]) (simp_all add: cell_update_other)
    have "modern_chain ?t (heap ?s4) v' k"
      by (rule modern_chain_frame [OF m4]) simp_all
    with l3 have "modern_chain ?t (heap ?s4) (HRef ?t) (Suc k)"
      by (simp add: h_get_def cell_update_same)
    with res ext show ?thesis
      by (simp add: n x)
  qed
qed


text \<open>
  A chain of relations of any length is converted at every level, whatever \<open>MAX_DEPTH\<close> is.
\<close>

lemma relation_chain_converted:
  assumes ch: "is_chain (heap s) x k"
    and cache: "in_progress s = []"
    and dp: "depth (transform_defaults options) \<le> MAX_DEPTH"
    and fuel: "3 * k + 2 \<le> fuel"
  shows "returned (transform fuel x V4 V5 options s)
     \<and> modern_chain 0 (heap_of (transform fuel x V4 V5 options s))
          (result_of (transform fuel x V4 V5 options s)) k"
proof -
  from fuel obtain n where n: "fuel = Suc (Suc n)" and nk: "3 * k \<le> n"
    by (cases fuel; simp; rename_tac f1; case_tac f1; simp)
  from ch obtain k' where k': "k = Suc k'" by (cases k) auto
  from ch k' obtain a where x: "x = HRef a" by (auto simp: Let_def dest!: is_ref_HRef)
  from ch k' have "h_truthy (h_get (heap s) x ''id'')" by (simp add: Let_def)
  with x have na: "\<not> h_isArray (heap s) x"
    by (auto simp: h_get_def h_isArray_def split: hobj.splits)
  let ?sa = "cache_add x s"
  have "is_chain (heap ?sa) x k" using ch by simp
  from chain_converted [OF this nk, of "transform_defaults options"]
  obtain v s' where
    r: "transformV4ItemToV5 n x (transform_defaults options) ?sa = Some (Inr v, s')"
    and m: "modern_chain (length (heap s)) (heap s') v k"
    by auto
  have "transform fuel x V4 V5 options s = Some (Inr v, cache_delete x s')"
    using dp cache na r
    by (simp add: n x transform_Suc(1) transform_Suc(2) [of n])
  moreover have "modern_chain 0 (heap s') v k"
    by (rule modern_chain_frame [OF m]) simp_all
  ultimately show ?thesis
    by (simp add: returned_def heap_of_def result_of_def)
qed

text \<open>
  C3. A chain of 20 items nested as relations is converted at all 20 levels: every item of
  the result, down to the last, is in the modern shape, and none below depth 10 is left as it
  was. The relation branch never passes through the depth guard of \<open>transform\<close>.
\<close>

theorem relation_chain_converted_at_all_levels:
  "returned (transform 100 (HRef 0) V4 V5 no_transform_options (initial_state (relation_chain 20)))
   \<and> modern_chain 0
        (heap_of (transform 100 (HRef 0) V4 V5 no_transform_options
                    (initial_state (relation_chain 20))))
        (result_of (transform 100 (HRef 0) V4 V5 no_transform_options
                    (initial_state (relation_chain 20))))
        20"
proof -
  have "is_chain (relation_chain 20) (HRef 0) 20" by code_simp
  then have "is_chain (heap (initial_state (relation_chain 20))) (HRef 0) 20"
    by (simp add: initial_state_def)
  then show ?thesis
    by (rule relation_chain_converted)
      (simp_all add: initial_state_def transform_defaults_def no_transform_options_def MAX_DEPTH_def)
qed

end
